theory Spec2Isabelle
  imports Complex_Main "HOL-Library.Multiset" "HOL-Library.Sublist"
begin

section \<open>The values of the type \<open>number\<close>\<close>

text \<open>
  A TypeScript \<open>number\<close> is an IEEE-754 binary64 value: \<open>NaN\<close>, an infinity, or
  a finite double. The finite doubles are the reals \<open>m * 2 ^ e\<close> with
  \<open>\<bar>m\<bar> < 2 ^ 53\<close> and \<open>- 1074 \<le> e\<close> below \<open>2 ^ 1024\<close>. The operators
  \<open>+\<close>, \<open>-\<close> and \<open>*\<close> of \<open>src/index.ts\<close> compute the exact real result and
  round it to the nearest double, ties to the even significand, and to an infinity
  when the rounded value leaves the range. The two zeros are one value here:
  \<open>-0\<close> and \<open>+0\<close> compare equal and give equal results under every operator
  the class uses.
\<close>

text \<open>The binade of a positive real: \<open>2 ^ expo x \<le> x < 2 ^ (expo x + 1)\<close>.\<close>

function expo :: "real \<Rightarrow> int" where
  "expo x =
     (if x \<le> 0 then 0
      else if 2 \<le> x then expo (x / 2) + 1
      else if x < 1 then expo (2 * x) - 1
      else 0)"
  by pat_completeness auto
termination
proof (relation "measure (\<lambda>x. nat \<lfloor>\<bar>log 2 x\<bar>\<rfloor> + (if x < 1 then 1 else 0))", goal_cases)
  case 1
  show ?case by simp
next
  case (2 x)
  then have x: "2 \<le> x" by simp
  then have l: "log 2 (x / 2) = log 2 x - 1" by (simp add: log_divide)
  have "1 \<le> log 2 x" using x by (smt (verit) log_le_cancel_iff log_eq_one)
  then have "nat \<lfloor>\<bar>log 2 (x / 2)\<bar>\<rfloor> < nat \<lfloor>\<bar>log 2 x\<bar>\<rfloor>" unfolding l by linarith
  then show ?case using x by simp
next
  case (3 x)
  then have x: "0 < x" "x < 1" by simp_all
  have l: "log 2 (2 * x) = log 2 x + 1" using x by (simp add: log_mult)
  have neg: "log 2 x < 0" using x by simp
  have "nat \<lfloor>\<bar>log 2 (2 * x)\<bar>\<rfloor> + (if 2 * x < 1 then 1 else 0) < nat \<lfloor>\<bar>log 2 x\<bar>\<rfloor> + 1"
  proof (cases "2 * x < 1")
    case True
    then have "log 2 (2 * x) < 0" using x by simp
    then have "log 2 x < - 1" using l by simp
    then show ?thesis using True unfolding l by simp
  next
    case False
    then have "0 \<le> log 2 (2 * x)" using x by simp
    moreover have "log 2 (2 * x) < 1" using l neg by simp
    ultimately have "\<lfloor>\<bar>log 2 (2 * x)\<bar>\<rfloor> = 0" by linarith
    with False show ?thesis by simp
  qed
  then show ?case using x by simp
qed

text \<open>Rounding to the nearest integer, a tie to the even one.\<close>

definition rne :: "real \<Rightarrow> int" where
  "rne r =
     (let f = \<lfloor>r\<rfloor>; d = r - of_int f
      in if d < 1 / 2 then f else if 1 / 2 < d then f + 1 else if even f then f else f + 1)"

text \<open>
  The spacing of the doubles around \<open>x\<close>: 53 significant bits, and no finer than
  \<open>2 ^ - 1074\<close>, the spacing of the subnormal doubles.
\<close>

definition emin :: int where
  "emin = - 1074"

definition ulp :: "real \<Rightarrow> real" where
  "ulp x = 2 powi (max (expo \<bar>x\<bar> - 52) emin)"

text \<open>Rounding to the grid of that spacing, with no bound on the exponent.\<close>

definition round_fin :: "real \<Rightarrow> real" where
  "round_fin x = of_int (rne (x / ulp x)) * ulp x"

text \<open>The first power of two beyond the doubles.\<close>

definition huge :: real where
  "huge = 2 ^ 1024"

definition is_double :: "real \<Rightarrow> bool" where
  "is_double x = (\<bar>x\<bar> < huge \<and> round_fin x = x)"

typedef double = "{x :: real. is_double x}"
  morphisms real_of_double Abs_double
  by (rule exI[of _ 0]) (simp add: is_double_def round_fin_def rne_def huge_def)

datatype number = NaN | NegInfinity | Fin double | Infinity

text \<open>
  The number a real denotes, as a numeric literal does and as the result of an
  operation does: the nearest double, or an infinity when that is out of range.
\<close>

definition Num :: "real \<Rightarrow> number" where
  "Num x =
     (let y = round_fin x
      in if huge \<le> \<bar>y\<bar> then (if 0 < y then Infinity else NegInfinity)
         else Fin (Abs_double y))"

fun isFinite :: "number \<Rightarrow> bool" where
  "isFinite (Fin a) = True"
| "isFinite _ = False"

text \<open>The real value of a finite number.\<close>

fun the_real :: "number \<Rightarrow> real" where
  "the_real (Fin a) = real_of_double a"
| "the_real _ = 0"

text \<open>The sign of a product with an infinity; zero times an infinity is \<open>NaN\<close>.\<close>

fun signed_infinity :: "real \<Rightarrow> number" where
  "signed_infinity s = (if s = 0 then NaN else if 0 < s then Infinity else NegInfinity)"

instantiation number :: "{plus, uminus, minus, times, ord}"
begin

fun plus_number :: "number \<Rightarrow> number \<Rightarrow> number" where
  "plus_number NaN b = NaN"
| "plus_number a NaN = NaN"
| "plus_number (Fin a) (Fin b) = Num (real_of_double a + real_of_double b)"
| "plus_number Infinity NegInfinity = NaN"
| "plus_number NegInfinity Infinity = NaN"
| "plus_number Infinity b = Infinity"
| "plus_number a Infinity = Infinity"
| "plus_number NegInfinity b = NegInfinity"
| "plus_number a NegInfinity = NegInfinity"

fun uminus_number :: "number \<Rightarrow> number" where
  "uminus_number NaN = NaN"
| "uminus_number NegInfinity = Infinity"
| "uminus_number (Fin a) = Num (- real_of_double a)"
| "uminus_number Infinity = NegInfinity"

definition minus_number :: "number \<Rightarrow> number \<Rightarrow> number" where
  "minus_number a b = a + (- b)"

fun times_number :: "number \<Rightarrow> number \<Rightarrow> number" where
  "times_number NaN b = NaN"
| "times_number a NaN = NaN"
| "times_number (Fin a) (Fin b) = Num (real_of_double a * real_of_double b)"
| "times_number (Fin a) Infinity = signed_infinity (real_of_double a)"
| "times_number (Fin a) NegInfinity = signed_infinity (- real_of_double a)"
| "times_number Infinity (Fin b) = signed_infinity (real_of_double b)"
| "times_number NegInfinity (Fin b) = signed_infinity (- real_of_double b)"
| "times_number Infinity Infinity = Infinity"
| "times_number NegInfinity NegInfinity = Infinity"
| "times_number Infinity NegInfinity = NegInfinity"
| "times_number NegInfinity Infinity = NegInfinity"

text \<open>Every comparison with \<open>NaN\<close> is false.\<close>

fun less_number :: "number \<Rightarrow> number \<Rightarrow> bool" where
  "less_number NaN b = False"
| "less_number a NaN = False"
| "less_number (Fin a) (Fin b) = (real_of_double a < real_of_double b)"
| "less_number a NegInfinity = False"
| "less_number NegInfinity b = True"
| "less_number Infinity b = False"
| "less_number a Infinity = True"

fun less_eq_number :: "number \<Rightarrow> number \<Rightarrow> bool" where
  "less_eq_number NaN b = False"
| "less_eq_number a NaN = False"
| "less_eq_number (Fin a) (Fin b) = (real_of_double a \<le> real_of_double b)"
| "less_eq_number NegInfinity b = True"
| "less_eq_number a NegInfinity = False"
| "less_eq_number a Infinity = True"
| "less_eq_number Infinity b = False"

instance ..

end

text \<open>
  The sum of two numbers is exact when no rounding takes place: both are finite and
  their real sum is a double, or one of them is not finite.
\<close>

fun exact_plus :: "number \<Rightarrow> number \<Rightarrow> bool" where
  "exact_plus (Fin a) (Fin b) = is_double (real_of_double a + real_of_double b)"
| "exact_plus _ _ = True"

section \<open>The store: arrays and \<open>DataProcessor\<close> objects\<close>

text \<open>
  Arrays and objects are reference values: a \<open>number[]\<close> is held through a reference
  to an array object, and the private field \<open>data\<close> of a \<open>DataProcessor\<close> holds such
  a reference. The store lists the array objects and the \<open>DataProcessor\<close> objects
  allocated so far; a reference is an index into its list, and allocation appends.
\<close>

datatype aref = ARef nat

datatype pref = PRef nat

record DataProcessor =
  data :: aref

record heap =
  arrays :: "number list list"
  procs :: "DataProcessor list"

fun get_array :: "heap \<Rightarrow> aref \<Rightarrow> number list option" where
  "get_array h (ARef i) = (if i < length (arrays h) then Some (arrays h ! i) else None)"

fun set_array :: "aref \<Rightarrow> number list \<Rightarrow> heap \<Rightarrow> heap" where
  "set_array (ARef i) xs h = h\<lparr>arrays := (arrays h)[i := xs]\<rparr>"

definition new_array :: "number list \<Rightarrow> heap \<Rightarrow> aref \<times> heap" where
  "new_array xs h = (ARef (length (arrays h)), h\<lparr>arrays := arrays h @ [xs]\<rparr>)"

fun get_proc :: "heap \<Rightarrow> pref \<Rightarrow> DataProcessor option" where
  "get_proc h (PRef i) = (if i < length (procs h) then Some (procs h ! i) else None)"

fun set_proc :: "pref \<Rightarrow> DataProcessor \<Rightarrow> heap \<Rightarrow> heap" where
  "set_proc (PRef i) obj h = h\<lparr>procs := (procs h)[i := obj]\<rparr>"

definition new_proc :: "DataProcessor \<Rightarrow> heap \<Rightarrow> pref \<times> heap" where
  "new_proc obj h = (PRef (length (procs h)), h\<lparr>procs := procs h @ [obj]\<rparr>)"

text \<open>The sequence a container holds: the contents of the array its \<open>data\<close> refers to.\<close>

definition values_of :: "heap \<Rightarrow> pref \<Rightarrow> number list option" where
  "values_of h this =
     (case get_proc h this of
        None \<Rightarrow> None
      | Some obj \<Rightarrow> get_array h (data obj))"

section \<open>The class \<open>DataProcessor\<close>\<close>

text \<open>
  A method takes the receiver \<open>this\<close>, its arguments and the store, and returns its
  result with the new store. \<open>None\<close> is the \<open>TypeError\<close> raised when a reference
  does not lead to an object. A parameter with a default value is an \<open>option\<close>:
  \<open>None\<close> is the omitted argument.
\<close>

text \<open>\<open>constructor(initialData: number[] = []) { this.data = [...initialData]; }\<close>\<close>

definition DataProcessor_constructor :: "aref option \<Rightarrow> heap \<Rightarrow> (pref \<times> heap) option" where
  "DataProcessor_constructor arg h =
     (let (initialData, h0) = (case arg of None \<Rightarrow> new_array [] h | Some a \<Rightarrow> (a, h)) in
      case get_array h0 initialData of
        None \<Rightarrow> None
      | Some items \<Rightarrow>
          let (d, h1) = new_array items h0
          in Some (new_proc \<lparr>data = d\<rparr> h1))"

text \<open>\<open>add(value) { this.data = this.data.map(item => item + value); return this; }\<close>\<close>

definition add :: "pref \<Rightarrow> number \<Rightarrow> heap \<Rightarrow> (pref \<times> heap) option" where
  "add this val h =
     (case get_proc h this of
        None \<Rightarrow> None
      | Some obj \<Rightarrow>
          (case get_array h (data obj) of
             None \<Rightarrow> None
           | Some items \<Rightarrow>
               let (d, h1) = new_array (map (\<lambda>item. item + val) items) h
               in Some (this, set_proc this (obj\<lparr>data := d\<rparr>) h1)))"

text \<open>\<open>multiply(value) { this.data = this.data.map(item => item * value); return this; }\<close>\<close>

definition multiply :: "pref \<Rightarrow> number \<Rightarrow> heap \<Rightarrow> (pref \<times> heap) option" where
  "multiply this val h =
     (case get_proc h this of
        None \<Rightarrow> None
      | Some obj \<Rightarrow>
          (case get_array h (data obj) of
             None \<Rightarrow> None
           | Some items \<Rightarrow>
               let (d, h1) = new_array (map (\<lambda>item. item * val) items) h
               in Some (this, set_proc this (obj\<lparr>data := d\<rparr>) h1)))"

text \<open>\<open>filterGreaterThan(threshold) { this.data = this.data.filter(item => item > threshold); return this; }\<close>\<close>

definition filterGreaterThan :: "pref \<Rightarrow> number \<Rightarrow> heap \<Rightarrow> (pref \<times> heap) option" where
  "filterGreaterThan this threshold h =
     (case get_proc h this of
        None \<Rightarrow> None
      | Some obj \<Rightarrow>
          (case get_array h (data obj) of
             None \<Rightarrow> None
           | Some items \<Rightarrow>
               let (d, h1) = new_array (filter (\<lambda>item. item > threshold) items) h
               in Some (this, set_proc this (obj\<lparr>data := d\<rparr>) h1)))"

text \<open>\<open>getResult() { return [...this.data]; }\<close>\<close>

definition getResult :: "pref \<Rightarrow> heap \<Rightarrow> (aref \<times> heap) option" where
  "getResult this h =
     (case get_proc h this of
        None \<Rightarrow> None
      | Some obj \<Rightarrow>
          (case get_array h (data obj) of
             None \<Rightarrow> None
           | Some items \<Rightarrow> Some (new_array items h)))"

text \<open>\<open>function createProcessor(initialData: number[] = []) { return new DataProcessor(initialData); }\<close>\<close>

definition createProcessor :: "aref option \<Rightarrow> heap \<Rightarrow> (pref \<times> heap) option" where
  "createProcessor arg h =
     (let (initialData, h0) = (case arg of None \<Rightarrow> new_array [] h | Some a \<Rightarrow> (a, h))
      in DataProcessor_constructor (Some initialData) h0)"

text \<open>
  \<open>sort(ascending = true) { this.data.sort((a, b) => ascending ? a - b : b - a); return this; }\<close>

  \<open>Array.prototype.sort\<close> sorts the array object in place. It reads the comparator
  through \<open>SortCompare\<close>, which takes a \<open>NaN\<close> result as \<open>+0\<close>; it puts \<open>x\<close>
  after \<open>y\<close> only when the result is positive, and it is stable. Where the
  comparator is consistent this fixes the result, and insertion from the right
  computes it. With \<open>NaN\<close> in the array the comparator is not consistent (it
  reports \<open>NaN\<close> equal to every number) and the language leaves the order to the
  engine; the model then returns what this insertion returns.
\<close>

definition SortCompare :: "(number \<Rightarrow> number \<Rightarrow> number) \<Rightarrow> number \<Rightarrow> number \<Rightarrow> number" where
  "SortCompare comparefn x y = (let v = comparefn x y in if v = NaN then Num 0 else v)"

fun insert_sorted :: "(number \<Rightarrow> number \<Rightarrow> number) \<Rightarrow> number \<Rightarrow> number list \<Rightarrow> number list" where
  "insert_sorted comparefn x [] = [x]"
| "insert_sorted comparefn x (y # ys) =
     (if SortCompare comparefn x y > Num 0 then y # insert_sorted comparefn x ys
      else x # y # ys)"

definition Array_sort :: "(number \<Rightarrow> number \<Rightarrow> number) \<Rightarrow> number list \<Rightarrow> number list" where
  "Array_sort comparefn items = foldr (insert_sorted comparefn) items []"

definition sort_DataProcessor :: "pref \<Rightarrow> bool option \<Rightarrow> heap \<Rightarrow> (pref \<times> heap) option" where
  "sort_DataProcessor this arg h =
     (let ascending = (case arg of None \<Rightarrow> True | Some b \<Rightarrow> b) in
      case get_proc h this of
        None \<Rightarrow> None
      | Some obj \<Rightarrow>
          (case get_array h (data obj) of
             None \<Rightarrow> None
           | Some items \<Rightarrow>
               Some (this,
                 set_array (data obj)
                   (Array_sort (\<lambda>a b. if ascending then a - b else b - a) items) h)))"

section \<open>The suspending variants\<close>

text \<open>
  An \<open>async\<close> function returns a promise. Each one here awaits
  \<open>new Promise(resolve => setTimeout(resolve, delayMs))\<close> first and runs the rest of
  its body when the timer fires: the promise holds the delay and that rest, a function
  of the store of that moment. \<open>await\<close> runs it.
\<close>

datatype 'a promise = Promise number "heap \<Rightarrow> ('a \<times> heap) option"

fun await :: "'a promise \<Rightarrow> heap \<Rightarrow> ('a \<times> heap) option" where
  "await (Promise delayMs rest) h = rest h"

definition addAsync :: "pref \<Rightarrow> number \<Rightarrow> number option \<Rightarrow> pref promise" where
  "addAsync this val arg =
     (let delayMs = (case arg of None \<Rightarrow> Num 100 | Some ms \<Rightarrow> ms) in
      Promise delayMs (\<lambda>h.
        case get_proc h this of
          None \<Rightarrow> None
        | Some obj \<Rightarrow>
            (case get_array h (data obj) of
               None \<Rightarrow> None
             | Some items \<Rightarrow>
                 let (d, h1) = new_array (map (\<lambda>item. item + val) items) h
                 in Some (this, set_proc this (obj\<lparr>data := d\<rparr>) h1))))"

definition multiplyAsync :: "pref \<Rightarrow> number \<Rightarrow> number option \<Rightarrow> pref promise" where
  "multiplyAsync this val arg =
     (let delayMs = (case arg of None \<Rightarrow> Num 100 | Some ms \<Rightarrow> ms) in
      Promise delayMs (\<lambda>h.
        case get_proc h this of
          None \<Rightarrow> None
        | Some obj \<Rightarrow>
            (case get_array h (data obj) of
               None \<Rightarrow> None
             | Some items \<Rightarrow>
                 let (d, h1) = new_array (map (\<lambda>item. item * val) items) h
                 in Some (this, set_proc this (obj\<lparr>data := d\<rparr>) h1))))"

definition filterGreaterThanAsync :: "pref \<Rightarrow> number \<Rightarrow> number option \<Rightarrow> pref promise" where
  "filterGreaterThanAsync this threshold arg =
     (let delayMs = (case arg of None \<Rightarrow> Num 100 | Some ms \<Rightarrow> ms) in
      Promise delayMs (\<lambda>h.
        case get_proc h this of
          None \<Rightarrow> None
        | Some obj \<Rightarrow>
            (case get_array h (data obj) of
               None \<Rightarrow> None
             | Some items \<Rightarrow>
                 let (d, h1) = new_array (filter (\<lambda>item. item > threshold) items) h
                 in Some (this, set_proc this (obj\<lparr>data := d\<rparr>) h1))))"

definition getResultAsync :: "pref \<Rightarrow> number option \<Rightarrow> aref promise" where
  "getResultAsync this arg =
     (let delayMs = (case arg of None \<Rightarrow> Num 100 | Some ms \<Rightarrow> ms) in
      Promise delayMs (\<lambda>h.
        case get_proc h this of
          None \<Rightarrow> None
        | Some obj \<Rightarrow>
            (case get_array h (data obj) of
               None \<Rightarrow> None
             | Some items \<Rightarrow> Some (new_array items h))))"

text \<open>
  \<open>createProcessorAsync(initialData = [], delayMs = 200)\<close>: the default values are
  computed at the call, so an omitted \<open>initialData\<close> allocates its empty array
  before the promise is returned; the constructor runs when the timer fires.
\<close>

definition createProcessorAsync ::
    "aref option \<Rightarrow> number option \<Rightarrow> heap \<Rightarrow> pref promise \<times> heap" where
  "createProcessorAsync arg1 arg2 h =
     (let (initialData, h0) = (case arg1 of None \<Rightarrow> new_array [] h | Some a \<Rightarrow> (a, h));
          delayMs = (case arg2 of None \<Rightarrow> Num 200 | Some ms \<Rightarrow> ms)
      in (Promise delayMs (\<lambda>h1. DataProcessor_constructor (Some initialData) h1), h0))"

section \<open>Stores of the test scenarios\<close>

text \<open>A container holding \<open>[1, 2, 3]\<close>, and one holding \<open>[20, 30, 40, 50, 60]\<close>.\<close>

definition store_123 :: heap where
  "store_123 = \<lparr>arrays = [ [Num 1, Num 2, Num 3] ], procs = [\<lparr>data = ARef 0\<rparr>]\<rparr>"

definition store_20_60 :: heap where
  "store_20_60 =
     \<lparr>arrays = [ [Num 20, Num 30, Num 40, Num 50, Num 60] ], procs = [\<lparr>data = ARef 0\<rparr>]\<rparr>"

text \<open>A container holding \<open>[3, 1, Infinity, 2]\<close>.\<close>

definition store_unsorted :: heap where
  "store_unsorted = \<lparr>arrays = [ [Num 3, Num 1, Infinity, Num 2] ], procs = [\<lparr>data = ARef 0\<rparr>]\<rparr>"

text \<open>A caller's array \<open>[1, 2, 3]\<close> and no container yet.\<close>

definition store_array_only :: heap where
  "store_array_only = \<lparr>arrays = [ [Num 1, Num 2, Num 3] ], procs = []\<rparr>"

text \<open>A caller's array \<open>[5, 10, 15, 20, 25]\<close> and no container yet.\<close>

definition store_5_25 :: heap where
  "store_5_25 = \<lparr>arrays = [ [Num 5, Num 10, Num 15, Num 20, Num 25] ], procs = []\<rparr>"

text \<open>
  A chain \<open>e.m(...)\<close> (or \<open>e.then(p => p.m(...))\<close> on a settled promise): the
  next method is called on what the previous call returned, in the store it left.
\<close>

definition chain :: "('a \<times> heap) option \<Rightarrow> ('a \<Rightarrow> heap \<Rightarrow> ('b \<times> heap) option) \<Rightarrow> ('b \<times> heap) option" where
  "chain r m = (case r of None \<Rightarrow> None | Some (x, h) \<Rightarrow> m x h)"

section \<open>Rounding\<close>

declare expo.simps [simp del]

lemma expo_bounds:
  "0 < x \<Longrightarrow> 2 powi (expo x) \<le> x \<and> x < 2 powi (expo x + 1)"
proof (induction x rule: expo.induct)
  case (1 x)
  show ?case
  proof (cases "2 \<le> x")
    case True
    then have e: "expo x = expo (x / 2) + 1" by (subst expo.simps) simp
    have "2 powi (expo (x / 2)) \<le> x / 2 \<and> x / 2 < 2 powi (expo (x / 2) + 1)"
      using 1 True by simp
    then show ?thesis unfolding e by (simp add: power_int_add)
  next
    case False
    show ?thesis
    proof (cases "x < 1")
      case True
      then have e: "expo x = expo (2 * x) - 1" using 1(3) False by (subst expo.simps) simp
      have "2 powi (expo (2 * x)) \<le> 2 * x \<and> 2 * x < 2 powi (expo (2 * x) + 1)"
        using 1 True False by simp
      then show ?thesis unfolding e by (simp add: power_int_add power_int_diff)
    next
      case F2: False
      then have e: "expo x = 0" using 1(3) False by (subst expo.simps) simp
      show ?thesis unfolding e using False F2 by simp
    qed
  qed
qed

lemma powi2_less: "((2::real) powi a < 2 powi b) = (a < b)"
proof
  assume l: "(2::real) powi a < 2 powi b"
  show "a < b"
  proof (rule ccontr)
    assume "\<not> a < b"
    then have "b \<le> a" by simp
    then have "(2::real) powi b \<le> 2 powi a" by (intro power_int_increasing) simp_all
    with l show False by simp
  qed
next
  assume "a < b"
  then show "(2::real) powi a < 2 powi b" by (intro power_int_strict_increasing) simp_all
qed

lemma powi2_le: "((2::real) powi a \<le> 2 powi b) = (a \<le> b)"
  using powi2_less[of b a] by (simp add: not_less[symmetric])

lemma powi2_pos: "0 < (2::real) powi a"
  by (simp add: zero_less_power_int)

lemma expo_unique:
  assumes "0 < x" "2 powi e \<le> x" "x < 2 powi (e + 1)"
  shows "expo x = e"
proof -
  have b: "2 powi (expo x) \<le> x" "x < 2 powi (expo x + 1)"
    using expo_bounds[OF assms(1)] by simp_all
  have "(2::real) powi e < 2 powi (expo x + 1)" using assms(2) b(2) by linarith
  then have 1: "e < expo x + 1" by (simp only: powi2_less)
  have "(2::real) powi (expo x) < 2 powi (e + 1)" using assms(3) b(1) by linarith
  then have 2: "expo x < e + 1" by (simp only: powi2_less)
  from 1 2 show ?thesis by simp
qed

lemma rne_of_int: "rne (of_int k) = k"
  by (simp add: rne_def)

lemma rne_error: "\<bar>of_int (rne r) - r\<bar> \<le> 1 / 2"
  unfolding rne_def Let_def by (auto; linarith)

lemma floor_minus_nonint: "r \<notin> \<int> \<Longrightarrow> \<lfloor>- r\<rfloor> = - \<lfloor>r :: real\<rfloor> - 1"
proof -
  assume a: "r \<notin> \<int>"
  have "r \<noteq> of_int \<lfloor>r\<rfloor>" using a by (metis Ints_of_int)
  then have "\<lceil>r\<rceil> = \<lfloor>r\<rfloor> + 1" by (simp add: ceiling_altdef)
  then show ?thesis by (simp add: floor_minus)
qed

lemma rne_minus: "rne (- r) = - rne r"
proof (cases "r \<in> \<int>")
  case True
  then obtain k where "r = of_int k" by (auto elim: Ints_cases)
  then show ?thesis using rne_of_int[of "- k"] rne_of_int[of k] by simp
next
  case False
  note f = floor_minus_nonint[OF False]
  define d where "d = r - of_int \<lfloor>r\<rfloor>"
  have d0: "d \<noteq> 0" using False unfolding d_def by (metis Ints_of_int eq_iff_diff_eq_0)
  have d1: "0 \<le> d" "d < 1" unfolding d_def by linarith+
  have dm: "- r - of_int \<lfloor>- r\<rfloor> = 1 - d" unfolding f d_def by simp
  have ev: "even (- \<lfloor>r\<rfloor> - 1) = odd \<lfloor>r\<rfloor>" by simp
  have e1: "rne r = (if d < 1 / 2 then \<lfloor>r\<rfloor> else if 1 / 2 < d then \<lfloor>r\<rfloor> + 1 else if even \<lfloor>r\<rfloor> then \<lfloor>r\<rfloor> else \<lfloor>r\<rfloor> + 1)"
    by (simp add: rne_def Let_def d_def)
  have e2: "rne (- r) = (if 1 - d < 1 / 2 then - \<lfloor>r\<rfloor> - 1 else if 1 / 2 < 1 - d then - \<lfloor>r\<rfloor> else if odd \<lfloor>r\<rfloor> then - \<lfloor>r\<rfloor> - 1 else - \<lfloor>r\<rfloor>)"
    unfolding rne_def Let_def dm unfolding f ev by simp
  consider "d < 1 / 2" | "d = 1 / 2" | "1 / 2 < d" by linarith
  then show ?thesis
  proof cases
    case 1 then show ?thesis unfolding e1 e2 by simp
  next
    case 2 then show ?thesis unfolding e1 e2 by simp
  next
    case 3 then show ?thesis unfolding e1 e2 by simp
  qed
qed

lemma rne_nonneg: "0 \<le> r \<Longrightarrow> 0 \<le> rne r"
  unfolding rne_def Let_def by (auto; linarith?)

lemma rne_zero_imp: "rne r = 0 \<Longrightarrow> \<bar>r\<bar> \<le> 1 / 2"
  using rne_error[of r] by simp

lemma ulp_pos: "0 < ulp x"
  by (simp add: ulp_def powi2_pos)

lemma ulp_minus: "ulp (- x) = ulp x"
  by (simp add: ulp_def)

lemma round_fin_minus: "round_fin (- x) = - round_fin x"
  by (simp add: round_fin_def ulp_minus rne_minus)

lemma round_fin_zero: "round_fin 0 = 0"
  by (simp add: round_fin_def rne_def)

lemma round_fin_error: "\<bar>round_fin x - x\<bar> \<le> ulp x / 2"
proof -
  let ?u = "ulp x"
  let ?k = "real_of_int (rne (x / ?u))"
  have u: "0 < ?u" by (rule ulp_pos)
  have "\<bar>?k - x / ?u\<bar> \<le> 1 / 2" by (rule rne_error)
  then have "\<bar>?k - x / ?u\<bar> * ?u \<le> 1 / 2 * ?u"
    using u by (intro mult_right_mono) simp_all
  moreover have "(?k - x / ?u) * ?u = ?k * ?u - x"
    using u by (simp add: left_diff_distrib)
  then have "\<bar>?k - x / ?u\<bar> * ?u = \<bar>?k * ?u - x\<bar>"
    using u by (metis abs_mult abs_of_pos)
  ultimately show ?thesis by (simp add: round_fin_def)
qed


lemma expo_less: "0 < x \<Longrightarrow> x < 2 powi n \<Longrightarrow> expo x < n"
proof -
  assume x: "0 < x" "x < 2 powi n"
  have "2 powi (expo x) \<le> x" using expo_bounds[OF x(1)] by simp
  then have "(2::real) powi (expo x) < 2 powi n" using x(2) by linarith
  then show ?thesis by (simp only: powi2_less)
qed

lemma expo_ge: "0 < x \<Longrightarrow> 2 powi n \<le> x \<Longrightarrow> n \<le> expo x"
proof -
  assume x: "0 < x" "2 powi n \<le> x"
  have "x < 2 powi (expo x + 1)" using expo_bounds[OF x(1)] by simp
  then have "(2::real) powi n < 2 powi (expo x + 1)" using x(2) by linarith
  then have "n < expo x + 1" by (simp only: powi2_less)
  then show ?thesis by simp
qed

lemma round_fin_exact: "x / ulp x = of_int k \<Longrightarrow> round_fin x = x"
proof -
  assume a: "x / ulp x = of_int k"
  have "round_fin x = x / ulp x * ulp x" unfolding round_fin_def a rne_of_int ..
  then show ?thesis using ulp_pos[of x] by simp
qed

lemma powi2_diff_int:
  assumes "a \<le> b"
  shows "(2::real) powi b / 2 powi a = of_int (2 ^ nat (b - a))"
proof -
  have "(2::real) powi b / 2 powi a = 2 powi (b - a)" by (simp add: power_int_diff)
  also have "\<dots> = 2 ^ nat (b - a)" using assms by (simp add: power_int_def)
  finally show ?thesis by simp
qed

lemma round_fin_grid:
  assumes x: "x = of_int m * 2 powi e" and m: "\<bar>m\<bar> < 2 ^ 53" and e: "emin \<le> e"
  shows "round_fin x = x"
proof (cases "x = 0")
  case True
  then show ?thesis by (simp add: round_fin_zero)
next
  case False
  then have pos: "0 < \<bar>x\<bar>" by simp
  have "\<bar>x\<bar> = of_int \<bar>m\<bar> * 2 powi e" using x powi2_pos[of e] by (simp add: abs_mult)
  also have "\<dots> < 2 ^ 53 * 2 powi e"
  proof -
    have "real_of_int \<bar>m\<bar> < 2 ^ 53" using m by (metis of_int_less_numeral_power_cancel_iff)
    then show ?thesis using powi2_pos[of e] by (intro mult_strict_right_mono)
  qed
  also have "\<dots> = 2 powi (53 + e)" by (simp add: power_int_add)
  finally have "expo \<bar>x\<bar> < 53 + e" using pos by (intro expo_less)
  then have ue: "max (expo \<bar>x\<bar> - 52) emin \<le> e" using e by simp
  define u where "u = max (expo \<bar>x\<bar> - 52) emin"
  have "x / ulp x = of_int m * (2 powi e / 2 powi u)" by (simp add: ulp_def x u_def)
  also have "\<dots> = of_int (m * 2 ^ nat (e - u))"
    using powi2_diff_int[of u e] ue by (simp add: u_def)
  finally show ?thesis by (rule round_fin_exact)
qed

lemma is_double_grid:
  assumes "x = of_int m * 2 powi e" "\<bar>m\<bar> < 2 ^ 53" "emin \<le> e" "\<bar>x\<bar> < huge"
  shows "is_double x"
  using assms round_fin_grid[OF assms(1,2,3)] by (simp add: is_double_def)

lemma is_double_int:
  assumes "x \<in> \<int>" "\<bar>x\<bar> \<le> 2 ^ 53"
  shows "is_double x"
proof -
  obtain n where n: "x = of_int n" using assms(1) by (auto elim: Ints_cases)
  have nb: "\<bar>n\<bar> \<le> 2 ^ 53" using assms(2) unfolding n by (metis of_int_abs of_int_le_numeral_power_cancel_iff)
  have big: "\<bar>x\<bar> < huge"
  proof -
    have "(2::real) ^ 53 < huge" unfolding huge_def by (intro power_strict_increasing) simp_all
    with assms(2) show ?thesis by linarith
  qed
  show ?thesis
  proof (cases "\<bar>n\<bar> < 2 ^ 53")
    case True
    show ?thesis by (rule is_double_grid[of x n 0]) (use True n big in \<open>simp_all add: emin_def\<close>)
  next
    case False
    with nb have "\<bar>n\<bar> = 2 ^ 53" by simp
    then have "n = 2 ^ 53 \<or> n = - (2 ^ 53)" by linarith
    then have "x = of_int (if 0 < n then 2 ^ 52 else - (2 ^ 52)) * 2 powi 1"
      unfolding n by auto
    then show ?thesis by (rule is_double_grid) (use big in \<open>simp_all add: emin_def\<close>)
  qed
qed

lemma abs_quotient_bound:
  assumes "x \<noteq> 0"
  shows "\<bar>x / ulp x\<bar> < 2 ^ 53"
proof -
  define E where "E = expo \<bar>x\<bar>"
  define u where "u = max (E - 52) emin"
  have pos: "0 < \<bar>x\<bar>" using assms by simp
  have "\<bar>x\<bar> < 2 powi (E + 1)" using expo_bounds[OF pos] by (simp add: E_def)
  also have "(2::real) powi (E + 1) \<le> 2 powi (u + 53)"
    by (simp only: powi2_le) (simp add: u_def)
  finally have "\<bar>x\<bar> < 2 powi u * 2 ^ 53" by (simp add: power_int_add)
  then have "\<bar>x\<bar> / 2 powi u < 2 ^ 53"
    using powi2_pos[of u] by (simp add: pos_divide_less_eq mult.commute)
  then show ?thesis using powi2_pos[of u] by (simp add: ulp_def E_def u_def)
qed

lemma rne_abs_bound:
  assumes "\<bar>r\<bar> < 2 ^ 53"
  shows "\<bar>rne r\<bar> \<le> 2 ^ 53"
proof -
  have "\<bar>real_of_int (rne r)\<bar> \<le> \<bar>r\<bar> + 1 / 2" using rne_error[of r] by linarith
  then have "\<bar>real_of_int (rne r)\<bar> < 2 ^ 53 + 1" using assms by linarith
  then have "real_of_int \<bar>rne r\<bar> < real_of_int (2 ^ 53 + 1)" by simp
  then have "\<bar>rne r\<bar> < 2 ^ 53 + 1" by (simp only: of_int_less_iff)
  then show ?thesis by simp
qed

lemma round_fin_is_double:
  assumes "\<bar>round_fin x\<bar> < huge"
  shows "is_double (round_fin x)"
proof (cases "x = 0")
  case True
  then show ?thesis by (simp add: round_fin_zero is_double_def huge_def)
next
  case False
  define u where "u = max (expo \<bar>x\<bar> - 52) emin"
  define k where "k = rne (x / ulp x)"
  have rf: "round_fin x = of_int k * 2 powi u" by (simp add: round_fin_def k_def ulp_def u_def)
  have u: "emin \<le> u" by (simp add: u_def)
  have kb: "\<bar>k\<bar> \<le> 2 ^ 53" unfolding k_def by (rule rne_abs_bound[OF abs_quotient_bound[OF False]])
  show ?thesis
  proof (cases "\<bar>k\<bar> < 2 ^ 53")
    case True
    show ?thesis by (rule is_double_grid[OF rf True u assms])
  next
    case F: False
    with kb have "\<bar>k\<bar> = 2 ^ 53" by simp
    then have "k = 2 ^ 53 \<or> k = - (2 ^ 53)" by linarith
    then have "round_fin x = of_int (if 0 < k then 2 ^ 52 else - (2 ^ 52)) * 2 powi (u + 1)"
      unfolding rf by (auto simp: power_int_add)
    then show ?thesis by (rule is_double_grid) (use u assms in simp_all)
  qed
qed

lemma powi2_split:
  assumes "c \<le> u"
  shows "(2::real) powi u = of_int (2 ^ nat (u - c)) * 2 powi c"
proof -
  have "(2::real) powi u = 2 powi (u - c) * 2 powi c" by (simp flip: power_int_add)
  also have "(2::real) powi (u - c) = 2 ^ nat (u - c)" using assms by (simp add: power_int_def)
  finally show ?thesis by simp
qed

lemma double_multiple:
  assumes "is_double x"
  shows "\<exists>k::int. x = of_int k * 2 powi emin"
proof -
  define u where "u = max (expo \<bar>x\<bar> - 52) emin"
  have u: "emin \<le> u" by (simp add: u_def)
  have "x = of_int (rne (x / ulp x)) * 2 powi u"
    using assms by (simp add: is_double_def round_fin_def ulp_def u_def)
  moreover have "(2::real) powi u = of_int (2 ^ nat (u - emin)) * 2 powi emin"
    using u by (rule powi2_split)
  ultimately have "x = of_int (rne (x / ulp x) * 2 ^ nat (u - emin)) * 2 powi emin"
    by (metis (no_types, lifting) mult.assoc of_int_mult)
  then show ?thesis by blast
qed

lemma multiple_add:
  assumes "is_double a" "is_double b"
  shows "\<exists>k::int. a + b = of_int k * 2 powi emin"
proof -
  obtain i j :: int where "a = of_int i * 2 powi emin" "b = of_int j * 2 powi emin"
    using double_multiple[OF assms(1)] double_multiple[OF assms(2)] by blast
  then have "a + b = of_int (i + j) * 2 powi emin" by (simp add: distrib_right)
  then show ?thesis by blast
qed

lemma is_double_minus: "is_double x \<Longrightarrow> is_double (- x)"
  by (simp add: is_double_def round_fin_minus)

lemma round_fin_nonneg: "0 \<le> x \<Longrightarrow> 0 \<le> round_fin x"
  using ulp_pos[of x] by (simp add: round_fin_def rne_nonneg)

lemma multiple_pos_ge:
  assumes "x = of_int k * 2 powi c" "0 < (x::real)"
  shows "2 powi c \<le> x"
proof -
  have "0 < real_of_int k" using assms powi2_pos[of c] by (simp add: zero_less_mult_iff)
  then have "1 \<le> real_of_int k" by simp
  then have "1 * 2 powi c \<le> real_of_int k * 2 powi c"
    using powi2_pos[of c] by (intro mult_right_mono) simp_all
  then show ?thesis using assms(1) by simp
qed

lemma round_fin_pos:
  assumes m: "x = of_int k * 2 powi emin" and pos: "0 < x"
  shows "0 < round_fin x"
proof -
  define E where "E = expo \<bar>x\<bar>"
  define u where "u = max (E - 52) emin"
  have ax: "\<bar>x\<bar> = x" using pos by simp
  have ul: "ulp x = 2 powi u" by (simp add: ulp_def u_def E_def)
  have ge: "0 \<le> rne (x / ulp x)" using pos ulp_pos[of x] by (intro rne_nonneg) simp
  have "rne (x / ulp x) \<noteq> 0"
  proof
    assume "rne (x / ulp x) = 0"
    then have "\<bar>x / ulp x\<bar> \<le> 1 / 2" by (rule rne_zero_imp)
    then have "x / 2 powi u \<le> 1 / 2" using pos powi2_pos[of u] by (simp add: ul)
    then have "x \<le> 2 powi u / 2" using powi2_pos[of u] by (simp add: pos_divide_le_eq)
    then have small: "x \<le> 2 powi (u - 1)" by (simp add: power_int_diff)
    have gE: "2 powi E \<le> x" using expo_bounds[of "\<bar>x\<bar>"] pos by (simp add: E_def ax)
    have gm: "2 powi emin \<le> x" using multiple_pos_ge[OF m pos] .
    have "(2::real) powi (E - 52) \<le> 2 powi E" by (simp add: powi2_le)
    with gE gm have "2 powi u \<le> x" unfolding u_def max_def by auto
    moreover have "(2::real) powi (u - 1) < 2 powi u" by (simp add: powi2_less)
    ultimately show False using small by linarith
  qed
  with ge have "0 < rne (x / ulp x)" by simp
  then show ?thesis using ulp_pos[of x] by (simp add: round_fin_def)
qed

lemma round_fin_sign:
  assumes m: "x = of_int k * 2 powi emin"
  shows "(0 < round_fin x) = (0 < x)"
proof (cases "0 < x")
  case True
  then show ?thesis using round_fin_pos[OF m] by simp
next
  case False
  then have "0 \<le> - x" by simp
  then have "0 \<le> round_fin (- x)" by (rule round_fin_nonneg)
  then show ?thesis using False by (simp add: round_fin_minus)
qed

lemma round_fin_rel_error:
  assumes m: "x = of_int k * 2 powi emin"
  shows "\<bar>round_fin x - x\<bar> \<le> 2 powi (- 53) * \<bar>x\<bar>"
proof (cases "x = 0")
  case True
  then show ?thesis by (simp add: round_fin_zero)
next
  case False
  define E where "E = expo \<bar>x\<bar>"
  define u where "u = max (E - 52) emin"
  have ul: "ulp x = 2 powi u" by (simp add: ulp_def u_def E_def)
  show ?thesis
  proof (cases "E - 52 \<le> emin")
    case True
    then have "ulp x = 2 powi emin" by (simp add: ul u_def)
    then have "x / ulp x = of_int k" using m by simp
    then have "round_fin x = x" by (rule round_fin_exact)
    then show ?thesis by simp
  next
    case F: False
    then have uE: "u = E - 52" by (simp add: u_def)
    have "\<bar>round_fin x - x\<bar> \<le> ulp x / 2" by (rule round_fin_error)
    also have "\<dots> = 2 powi (- 53) * 2 powi E"
      unfolding ul uE by (simp add: power_int_diff power_int_minus field_simps)
    also have "\<dots> \<le> 2 powi (- 53) * \<bar>x\<bar>"
      using expo_bounds[of "\<bar>x\<bar>"] False powi2_pos[of "- 53"]
      by (intro mult_left_mono) (simp_all add: E_def)
    finally show ?thesis .
  qed
qed

lemma round_fin_at:
  assumes "2 powi e \<le> \<bar>x\<bar>" "\<bar>x\<bar> < 2 powi (e + 1)"
  shows "round_fin x = of_int (rne (x / 2 powi max (e - 52) emin)) * 2 powi max (e - 52) emin"
proof -
  have "0 < \<bar>x\<bar>" using assms(1) powi2_pos[of e] by linarith
  then have "expo \<bar>x\<bar> = e" using assms by (intro expo_unique)
  then show ?thesis by (simp add: round_fin_def ulp_def)
qed

lemma round_fin_double: "is_double x \<Longrightarrow> round_fin x = x"
  by (simp add: is_double_def)

section \<open>Arithmetic and order of \<open>number\<close>\<close>

lemma double_is_double: "is_double (real_of_double a)"
  using real_of_double[of a] by simp

lemma real_of_Abs: "is_double x \<Longrightarrow> real_of_double (Abs_double x) = x"
  by (simp add: Abs_double_inverse)

lemma is_double_bound: "is_double x \<Longrightarrow> \<bar>x\<bar> < huge"
  by (simp add: is_double_def)

lemma Num_double: "is_double x \<Longrightarrow> Num x = Fin (Abs_double x)"
  by (simp add: Num_def is_double_def Let_def)

lemma Fin_Num: "Fin a = Num (real_of_double a)"
  by (simp add: Num_double double_is_double real_of_double_inverse)

lemma number_cases [case_names NaN NegInfinity Num Infinity]:
  obtains "x = NaN" | "x = NegInfinity" | r where "x = Num r" "is_double r" | "x = Infinity"
  by (cases x) (auto simp: Fin_Num double_is_double)

lemma Num_eq_iff: "is_double a \<Longrightarrow> is_double b \<Longrightarrow> (Num a = Num b) = (a = b)"
  by (auto simp: Num_double Abs_double_inject)

lemma Num_not_NaN: "Num x \<noteq> NaN" "NaN \<noteq> Num x"
  by (simp_all add: Num_def Let_def)

lemma Num_not_inf: "is_double a \<Longrightarrow> Num a \<noteq> Infinity \<and> Num a \<noteq> NegInfinity \<and> Infinity \<noteq> Num a \<and> NegInfinity \<noteq> Num a"
  by (simp add: Num_double)

lemma isFinite_Num: "is_double a \<Longrightarrow> isFinite (Num a)"
  by (simp add: Num_double)

lemma Num_plus: "is_double a \<Longrightarrow> is_double b \<Longrightarrow> Num a + Num b = Num (a + b)"
  by (simp add: Num_double real_of_Abs)

lemma Num_times: "is_double a \<Longrightarrow> is_double b \<Longrightarrow> Num a * Num b = Num (a * b)"
  by (simp add: Num_double real_of_Abs)

lemma Num_uminus: "is_double a \<Longrightarrow> - Num a = Num (- a)"
  by (simp add: Num_double real_of_Abs)

lemma Num_minus: "is_double a \<Longrightarrow> is_double b \<Longrightarrow> Num a - Num b = Num (a - b)"
  by (simp add: minus_number_def Num_uminus Num_plus is_double_minus)

lemma Num_less: "is_double a \<Longrightarrow> is_double b \<Longrightarrow> (Num a < Num b) = (a < b)"
  by (simp add: Num_double real_of_Abs)

lemma Num_le: "is_double a \<Longrightarrow> is_double b \<Longrightarrow> (Num a \<le> Num b) = (a \<le> b)"
  by (simp add: Num_double real_of_Abs)

lemma is_double_0: "is_double 0" and is_double_1: "is_double 1"
  by (simp_all add: is_double_int)

lemma Abs_double_eq: "is_double a \<Longrightarrow> is_double b \<Longrightarrow> (Abs_double a = Abs_double b) = (a = b)"
  by (simp add: Abs_double_inject)

lemmas number_eval = Num_double real_of_Abs Abs_double_eq is_double_int

lemma times_one: "x * Num 1 = (x::number)"
  by (cases x) (simp_all add: number_eval real_of_double_inverse Fin_Num[symmetric])

lemma times_zero_finite: "isFinite x \<Longrightarrow> x * Num 0 = Num 0"
  by (cases x) (simp_all add: number_eval)

lemma times_zero: "x * Num 0 = (if isFinite x then Num 0 else NaN)"
  by (cases x) (simp_all add: number_eval)

lemma less_eq_number_iff: "(a \<le> b) = (a < b \<or> (a = b \<and> a \<noteq> NaN))" for a b :: number
  by (cases a; cases b) (auto simp: real_of_double_inject less_le)

lemma less_eq_antisym: "(a::number) \<le> b \<Longrightarrow> b \<le> a \<Longrightarrow> a = b"
  by (cases a; cases b) (simp_all add: real_of_double_inject)

lemma less_eq_trans: "(a::number) \<le> b \<Longrightarrow> b \<le> c \<Longrightarrow> a \<le> c"
  by (cases a; cases b; cases c) simp_all

lemma less_eq_total: "x \<noteq> NaN \<Longrightarrow> y \<noteq> NaN \<Longrightarrow> (x::number) \<le> y \<or> y \<le> x"
  by (cases x; cases y) auto

lemma Num_pos_iff: "(Num 0 < Num z) = (0 < round_fin z)"
proof -
  have z: "Num 0 = Fin (Abs_double 0)" "real_of_double (Abs_double 0) = 0"
    by (simp_all add: number_eval)
  show ?thesis
  proof (cases "huge \<le> \<bar>round_fin z\<bar>")
    case True
    moreover have "0 < huge" by (simp add: huge_def)
    ultimately show ?thesis unfolding z Num_def[of z] Let_def by auto
  next
    case False
    then have d: "is_double (round_fin z)" by (intro round_fin_is_double) simp
    show ?thesis unfolding z Num_def[of z] Let_def using False d by (simp add: z real_of_Abs)
  qed
qed

lemma Num_diff_pos:
  assumes "is_double a" "is_double b"
  shows "(Num 0 < Num (a - b)) = (b < a)"
proof -
  obtain k :: int where k: "a + (- b) = of_int k * 2 powi emin"
    using multiple_add[OF assms(1) is_double_minus[OF assms(2)]] by blast
  then have "(0 < round_fin (a - b)) = (0 < a - b)" using round_fin_sign[of "a - b" k] by simp
  then show ?thesis by (simp add: Num_pos_iff)
qed

lemma minus_pos_iff: "x \<noteq> NaN \<Longrightarrow> y \<noteq> NaN \<Longrightarrow> (Num 0 < x - y) = (y < (x::number))"
proof (cases x rule: number_cases; cases y rule: number_cases)
  fix a b assume "x = Num a" "is_double a" "y = Num b" "is_double b"
  then show ?thesis by (simp add: Num_minus Num_diff_pos Num_less)
qed (simp_all add: number_eval minus_number_def Num_uminus is_double_minus)

lemma Num_round: "\<bar>round_fin x\<bar> < huge \<Longrightarrow> Num x = Num (round_fin x)"
proof -
  assume a: "\<bar>round_fin x\<bar> < huge"
  then have "is_double (round_fin x)" by (rule round_fin_is_double)
  then show ?thesis using a by (simp add: Num_def[of x] Let_def Num_double)
qed

lemma round_2_53_plus_1: "round_fin (2 ^ 53 + 1) = 2 ^ 53"
  by (subst round_fin_at[where e = 53]) (simp_all add: emin_def rne_def)

lemma Num_2_53_plus_1: "Num (2 ^ 53) + Num 1 = Num (2 ^ 53)"
proof -
  have "Num (2 ^ 53) + Num 1 = Num (2 ^ 53 + 1)" by (simp add: Num_plus is_double_int)
  also have "\<dots> = Num (round_fin (2 ^ 53 + 1))"
    by (rule Num_round) (unfold round_2_53_plus_1, simp add: huge_def)
  finally show ?thesis by (simp only: round_2_53_plus_1)
qed

lemma restore_exact:
  assumes "exact_plus e k" "isFinite k"
  shows "(e + k) + (- k) = e"
proof (cases e rule: number_cases)
  case (Num a)
  obtain b where b: "k = Num b" "is_double b" using assms(2) by (cases k rule: number_cases) auto
  have ex: "is_double (a + b)" using assms(1) Num b by (simp add: Num_double real_of_Abs)
  show ?thesis using Num b ex by (simp add: Num_plus Num_uminus is_double_minus)
next
  case NaN then show ?thesis by simp
next
  case NegInfinity
  then show ?thesis using assms(2) by (cases k rule: number_cases) (auto simp: Num_double real_of_Abs is_double_minus)
next
  case Infinity
  then show ?thesis using assms(2) by (cases k rule: number_cases) (auto simp: Num_double real_of_Abs is_double_minus)
qed

lemma restore_special:
  assumes "\<not> isFinite e" "isFinite k"
  shows "(e + k) + (- k) = e"
  using assms by (intro restore_exact) (cases e, simp_all)

lemma the_real_Num: "is_double a \<Longrightarrow> the_real (Num a) = a"
  by (simp add: Num_double real_of_Abs)

lemma Num_finite_iff: "isFinite (Num x) = (\<bar>round_fin x\<bar> < huge)"
  by (simp add: Num_def Let_def)

lemma Num_infinite_plus: "\<not> isFinite x \<Longrightarrow> \<not> isFinite (x + y)"
  by (cases x; cases y) simp_all

lemma rel_error_sum:
  assumes "is_double a" "is_double b"
  shows "\<bar>round_fin (a + b) - (a + b)\<bar> \<le> 2 powi (- 53) * \<bar>a + b\<bar>"
proof -
  obtain k :: int where "a + b = of_int k * 2 powi emin" using multiple_add[OF assms] by blast
  then show ?thesis by (rule round_fin_rel_error)
qed

lemma tolerance_arith:
  fixes a b s r u :: real
  assumes u: "0 \<le> u" "u \<le> 1"
    and 1: "\<bar>s - (a + b)\<bar> \<le> u * \<bar>a + b\<bar>"
    and 2: "\<bar>r - (s - b)\<bar> \<le> u * \<bar>s - b\<bar>"
  shows "\<bar>r - a\<bar> \<le> 4 * u * (\<bar>a\<bar> + \<bar>b\<bar>)"
proof -
  define T where "T = \<bar>a\<bar> + \<bar>b\<bar>"
  have T: "0 \<le> T" "\<bar>a + b\<bar> \<le> T" "\<bar>a\<bar> \<le> T" by (simp_all add: T_def)
  have uT: "u * \<bar>a + b\<bar> \<le> u * T" using T u by (intro mult_left_mono) simp_all
  have "\<bar>s - b\<bar> \<le> \<bar>a\<bar> + \<bar>s - (a + b)\<bar>" by linarith
  also have "\<dots> \<le> T + u * T" using 1 uT T by linarith
  also have "\<dots> \<le> 2 * T"
  proof -
    have "u * T \<le> 1 * T" using u T by (intro mult_right_mono) simp_all
    then show ?thesis by simp
  qed
  finally have sb: "\<bar>s - b\<bar> \<le> 2 * T" .
  have "u * \<bar>s - b\<bar> \<le> u * (2 * T)" using sb u by (intro mult_left_mono) simp_all
  then have "\<bar>r - (s - b)\<bar> \<le> 2 * u * T" using 2 by simp
  moreover have "\<bar>s - (a + b)\<bar> \<le> u * T" using 1 uT by linarith
  moreover have "\<bar>r - a\<bar> \<le> \<bar>r - (s - b)\<bar> + \<bar>s - (a + b)\<bar>" by linarith
  ultimately have "\<bar>r - a\<bar> \<le> 3 * u * T" by linarith
  moreover have "3 * u * T \<le> 4 * u * T" using u T by simp
  ultimately show ?thesis unfolding T_def by linarith
qed

lemma restore_tolerance:
  assumes "isFinite e" "isFinite k" "isFinite ((e + k) + (- k))"
  shows "\<bar>the_real ((e + k) + (- k)) - the_real e\<bar>
           \<le> 2 powi (- 51) * (\<bar>the_real e\<bar> + \<bar>the_real k\<bar>)"
proof -
  obtain a where a: "e = Num a" "is_double a" using assms(1) by (cases e rule: number_cases) auto
  obtain b where b: "k = Num b" "is_double b" using assms(2) by (cases k rule: number_cases) auto
  define s where "s = round_fin (a + b)"
  have ek: "e + k = Num (a + b)" by (simp add: a b Num_plus)
  have mk: "- k = Num (- b)" by (simp add: b Num_uminus)
  have "isFinite (e + k)" using assms(3) Num_infinite_plus by blast
  then have sf: "\<bar>s\<bar> < huge" by (simp add: ek Num_finite_iff s_def)
  then have sd: "is_double s" unfolding s_def by (rule round_fin_is_double)
  have ek': "e + k = Num s" unfolding ek s_def using sf[unfolded s_def] by (rule Num_round)
  define r where "r = round_fin (s - b)"
  have res: "(e + k) + (- k) = Num (s - b)"
    unfolding ek' mk by (simp add: Num_plus sd b(2) is_double_minus)
  then have rf: "\<bar>r\<bar> < huge" using assms(3) by (simp add: Num_finite_iff r_def)
  then have rd: "is_double r" unfolding r_def by (rule round_fin_is_double)
  have res': "(e + k) + (- k) = Num r" unfolding res r_def using rf[unfolded r_def] by (rule Num_round)
  have 1: "\<bar>s - (a + b)\<bar> \<le> 2 powi (- 53) * \<bar>a + b\<bar>"
    unfolding s_def by (rule rel_error_sum[OF a(2) b(2)])
  have 2: "\<bar>r - (s - b)\<bar> \<le> 2 powi (- 53) * \<bar>s - b\<bar>"
    unfolding r_def using rel_error_sum[OF sd is_double_minus[OF b(2)]] by simp
  have "\<bar>r - a\<bar> \<le> 4 * 2 powi (- 53) * (\<bar>a\<bar> + \<bar>b\<bar>)"
    by (rule tolerance_arith[OF _ _ 1 2]) simp_all
  moreover have "4 * (2::real) powi (- 53) = 2 powi (- 51)" by simp
  ultimately have "\<bar>r - a\<bar> \<le> 2 powi (- 51) * (\<bar>a\<bar> + \<bar>b\<bar>)" by simp
  moreover have "the_real ((e + k) + (- k)) = r" unfolding res' by (rule the_real_Num[OF rd])
  moreover have "the_real e = a" "the_real k = b" by (simp_all add: a b the_real_Num)
  ultimately show ?thesis by simp
qed

lemma is_double_iff:
  "is_double x = (\<bar>x\<bar> < huge \<and> (\<exists>m e. x = of_int m * 2 powi e \<and> \<bar>m\<bar> < 2 ^ 53 \<and> emin \<le> e))"
proof
  assume d: "is_double x"
  then have b: "\<bar>x\<bar> < huge" and f: "round_fin x = x" by (simp_all add: is_double_def)
  show "\<bar>x\<bar> < huge \<and> (\<exists>m e. x = of_int m * 2 powi e \<and> \<bar>m\<bar> < 2 ^ 53 \<and> emin \<le> e)"
  proof (cases "x = 0")
    case True
    then have "x = of_int 0 * 2 powi 0 \<and> \<bar>0::int\<bar> < 2 ^ 53 \<and> emin \<le> 0" by (simp add: emin_def)
    with b show ?thesis by blast
  next
    case False
    define u where "u = max (expo \<bar>x\<bar> - 52) emin"
    define k where "k = rne (x / ulp x)"
    have rf: "x = of_int k * 2 powi u" using f by (simp add: round_fin_def k_def ulp_def u_def)
    have u: "emin \<le> u" by (simp add: u_def)
    have kb: "\<bar>k\<bar> \<le> 2 ^ 53" unfolding k_def by (rule rne_abs_bound[OF abs_quotient_bound[OF False]])
    show ?thesis
    proof (cases "\<bar>k\<bar> < 2 ^ 53")
      case True
      with rf u b show ?thesis by blast
    next
      case F: False
      with kb have "\<bar>k\<bar> = 2 ^ 53" by simp
      then have "k = 2 ^ 53 \<or> k = - (2 ^ 53)" by linarith
      then have "x = of_int (if 0 < k then 2 ^ 52 else - (2 ^ 52)) * 2 powi (u + 1)"
        by (subst rf) (auto simp: power_int_add)
      moreover have "\<bar>if 0 < k then 2 ^ 52 else - (2 ^ 52) :: int\<bar> < 2 ^ 53" by simp
      moreover have "emin \<le> u + 1" using u by simp
      ultimately show ?thesis using b by blast
    qed
  qed
next
  assume "\<bar>x\<bar> < huge \<and> (\<exists>m e. x = of_int m * 2 powi e \<and> \<bar>m\<bar> < 2 ^ 53 \<and> emin \<le> e)"
  then show "is_double x" using is_double_grid by blast
qed

lemma round_2_53_1: "round_fin 9007199254740993 = 9007199254740992"
  by (subst round_fin_at[where e = 53]) (simp_all add: emin_def rne_def)

lemma Num_2_53_1: "Num 9007199254740993 = Num 9007199254740992"
proof -
  have "Num 9007199254740993 = Num (round_fin 9007199254740993)"
    by (rule Num_round) (unfold round_2_53_1, simp add: huge_def)
  then show ?thesis by (simp only: round_2_53_1)
qed

lemma times_overflows: "Num (2 ^ 1023) * Num 2 = Infinity"
proof -
  have d: "is_double (2 ^ 1023)"
    by (rule is_double_grid[of _ 1 1023]) (simp_all add: emin_def huge_def power_int_def)
  have r: "round_fin (2 ^ 1023 * 2) = 2 ^ 1023 * 2"
    by (rule round_fin_grid[of _ 1 1024]) (simp_all add: emin_def power_int_def)
  have "Num (2 ^ 1023) * Num 2 = Num (2 ^ 1023 * 2)" using d by (simp add: Num_times is_double_int)
  also have "\<dots> = Infinity" unfolding Num_def r Let_def by (simp add: huge_def)
  finally show ?thesis .
qed

lemma restore_nth:
  assumes "isFinite k"
  shows "(exact_plus e k \<longrightarrow> (e + k) + (- k) = e) \<and>
         (isFinite e \<and> isFinite ((e + k) + (- k)) \<longrightarrow>
            \<bar>the_real ((e + k) + (- k)) - the_real e\<bar>
              \<le> 2 powi (- 51) * (\<bar>the_real e\<bar> + \<bar>the_real k\<bar>))"
  using restore_exact[OF _ assms] restore_tolerance[OF _ assms] by blast

lemma not_le_number: "x \<noteq> NaN \<Longrightarrow> y \<noteq> NaN \<Longrightarrow> (\<not> x \<le> y) = (y < (x::number))"
  by (cases x; cases y) auto

lemma compare_ascending:
  "x \<noteq> NaN \<Longrightarrow> y \<noteq> NaN \<Longrightarrow> (SortCompare (\<lambda>a b. a - b) x y > Num 0) = (\<not> x \<le> y)"
proof -
  assume n: "x \<noteq> NaN" "y \<noteq> NaN"
  have z: "\<not> Num 0 < Num 0" "\<not> Num 0 < NaN" by (simp_all add: number_eval)
  have "(SortCompare (\<lambda>a b. a - b) x y > Num 0) = (Num 0 < x - y)"
    using z by (auto simp: SortCompare_def Let_def)
  then show ?thesis using n by (simp add: minus_pos_iff not_le_number)
qed

lemma compare_descending:
  "x \<noteq> NaN \<Longrightarrow> y \<noteq> NaN \<Longrightarrow> (SortCompare (\<lambda>a b. b - a) x y > Num 0) = (\<not> y \<le> x)"
proof -
  assume n: "x \<noteq> NaN" "y \<noteq> NaN"
  have z: "\<not> Num 0 < Num 0" "\<not> Num 0 < NaN" by (simp_all add: number_eval)
  have "(SortCompare (\<lambda>a b. b - a) x y > Num 0) = (Num 0 < y - x)"
    using z by (auto simp: SortCompare_def Let_def)
  then show ?thesis using n by (simp add: minus_pos_iff not_le_number)
qed

lemma less_eq_not_NaN: "(x::number) \<le> y \<Longrightarrow> x \<noteq> NaN \<and> y \<noteq> NaN"
  by (cases x; cases y) simp_all

lemma less_eq_not_minus_pos: "(x::number) \<le> y \<Longrightarrow> \<not> Num 0 < x - y"
proof -
  assume l: "x \<le> y"
  then have n: "x \<noteq> NaN" "y \<noteq> NaN" using less_eq_not_NaN by blast+
  then have "(\<not> x \<le> y) = (y < x)" by (rule not_le_number)
  then show ?thesis using l n by (simp add: minus_pos_iff)
qed

lemma map_times_zero:
  "\<forall>x \<in> set xs. isFinite x \<Longrightarrow> map (\<lambda>e. e * Num 0) xs = replicate (length xs) (Num 0)"
  by (induction xs) (simp_all add: times_zero_finite)

section \<open>Insertion sort\<close>

lemma mset_insert_sorted: "mset (insert_sorted c x ys) = add_mset x (mset ys)"
  by (induction ys) simp_all

lemma mset_Array_sort: "mset (Array_sort c xs) = mset xs"
  by (induction xs) (simp_all add: Array_sort_def mset_insert_sorted)

lemma set_Array_sort: "set (Array_sort c xs) = set xs"
  by (metis mset_Array_sort set_mset_mset)

lemma length_Array_sort: "length (Array_sort c xs) = length xs"
  by (metis mset_Array_sort size_mset)

lemma set_insert_sorted: "set (insert_sorted c x ys) = insert x (set ys)"
  by (metis mset_insert_sorted set_mset_add_mset_insert set_mset_mset)

lemma sorted_insert_ascending:
  "x \<noteq> NaN \<Longrightarrow> NaN \<notin> set ys \<Longrightarrow> sorted_wrt (\<le>) ys \<Longrightarrow>
   sorted_wrt (\<le>) (insert_sorted (\<lambda>a b. a - b) x ys)"
proof (induction ys)
  case Nil
  then show ?case by simp
next
  case (Cons y ys)
  show ?case
  proof (cases "x \<le> y")
    case True
    with Cons.prems show ?thesis
      by (auto simp: compare_ascending intro: less_eq_trans)
  next
    case False
    with Cons.prems have "y \<le> x" using less_eq_total[of x y] by auto
    with False Cons show ?thesis
      by (auto simp: compare_ascending set_insert_sorted)
  qed
qed

lemma sorted_insert_descending:
  "x \<noteq> NaN \<Longrightarrow> NaN \<notin> set ys \<Longrightarrow> sorted_wrt (\<ge>) ys \<Longrightarrow>
   sorted_wrt (\<ge>) (insert_sorted (\<lambda>a b. b - a) x ys)"
proof (induction ys)
  case Nil
  then show ?case by simp
next
  case (Cons y ys)
  show ?case
  proof (cases "y \<le> x")
    case True
    with Cons.prems show ?thesis
      by (auto simp: compare_descending intro: less_eq_trans)
  next
    case False
    with Cons.prems have "x \<le> y" using less_eq_total[of x y] by auto
    with False Cons show ?thesis
      by (auto simp: compare_descending set_insert_sorted)
  qed
qed

lemma sorted_Array_sort_ascending:
  "NaN \<notin> set xs \<Longrightarrow> sorted_wrt (\<le>) (Array_sort (\<lambda>a b. a - b) xs)"
proof (induction xs)
  case Nil
  then show ?case by (simp add: Array_sort_def)
next
  case (Cons x xs)
  then have "sorted_wrt (\<le>) (Array_sort (\<lambda>a b. a - b) xs)" by simp
  moreover have "NaN \<notin> set (Array_sort (\<lambda>a b. a - b) xs)"
    using Cons.prems by (simp add: set_Array_sort)
  moreover have "x \<noteq> NaN" using Cons.prems by auto
  ultimately have "sorted_wrt (\<le>) (insert_sorted (\<lambda>a b. a - b) x (Array_sort (\<lambda>a b. a - b) xs))"
    by (simp add: sorted_insert_ascending)
  then show ?case by (simp add: Array_sort_def)
qed

lemma sorted_Array_sort_descending:
  "NaN \<notin> set xs \<Longrightarrow> sorted_wrt (\<ge>) (Array_sort (\<lambda>a b. b - a) xs)"
proof (induction xs)
  case Nil
  then show ?case by (simp add: Array_sort_def)
next
  case (Cons x xs)
  then have "sorted_wrt (\<ge>) (Array_sort (\<lambda>a b. b - a) xs)" by simp
  moreover have "NaN \<notin> set (Array_sort (\<lambda>a b. b - a) xs)"
    using Cons.prems by (simp add: set_Array_sort)
  moreover have "x \<noteq> NaN" using Cons.prems by auto
  ultimately have "sorted_wrt (\<ge>) (insert_sorted (\<lambda>a b. b - a) x (Array_sort (\<lambda>a b. b - a) xs))"
    by (simp add: sorted_insert_descending)
  then show ?case by (simp add: Array_sort_def)
qed

lemma sorted_unique:
  "sorted_wrt (\<le>) as \<Longrightarrow> sorted_wrt (\<le>) bs \<Longrightarrow> mset as = mset bs \<Longrightarrow> as = (bs::number list)"
proof (induction as arbitrary: bs)
  case Nil
  then show ?case by simp
next
  case (Cons a as)
  then obtain b bs' where bs: "bs = b # bs'" by (cases bs) auto
  have "a \<in> set bs" using Cons.prems(3) by (metis list.set_intros(1) mset_eq_setD)
  have "b \<in> set (a # as)" using Cons.prems(3) bs by (metis list.set_intros(1) mset_eq_setD)
  have "a = b"
  proof (rule ccontr)
    assume "a \<noteq> b"
    with \<open>a \<in> set bs\<close> \<open>b \<in> set (a # as)\<close> bs have "a \<in> set bs'" "b \<in> set as" by auto
    with Cons.prems(1,2) bs have "a \<le> b" "b \<le> a" by auto
    with \<open>a \<noteq> b\<close> show False using less_eq_antisym by blast
  qed
  with Cons bs show ?case by auto
qed

lemma descending_after_ascending:
  assumes "NaN \<notin> set xs"
  shows "Array_sort (\<lambda>a b. b - a) (Array_sort (\<lambda>a b. a - b) xs) = rev (Array_sort (\<lambda>a b. a - b) xs)"
proof -
  let ?ys = "Array_sort (\<lambda>a b. a - b) xs"
  let ?zs = "Array_sort (\<lambda>a b. b - a) ?ys"
  have "NaN \<notin> set ?ys" using assms by (simp add: set_Array_sort)
  then have "sorted_wrt (\<ge>) ?zs" by (rule sorted_Array_sort_descending)
  then have "sorted_wrt (\<le>) (rev ?zs)" by (simp add: sorted_wrt_rev)
  moreover have "sorted_wrt (\<le>) ?ys" using assms by (rule sorted_Array_sort_ascending)
  moreover have "mset (rev ?zs) = mset ?ys" by (simp add: mset_Array_sort)
  ultimately have "rev ?zs = ?ys" by (rule sorted_unique)
  then show ?thesis by (metis rev_rev_ident)
qed

section \<open>The store\<close>

lemma get_array_old:
  "get_array h a = Some zs \<Longrightarrow> get_array (h\<lparr>arrays := arrays h @ [xs]\<rparr>) a = Some zs"
  by (cases a) (auto simp: nth_append split: if_splits)

lemma get_array_set_other:
  "a \<noteq> r \<Longrightarrow> get_array (set_array r ys h) a = get_array h a"
  by (cases a; cases r) auto

lemma get_proc_set_array: "get_proc (set_array r ys h) p = get_proc h p"
  by (cases p; cases r) auto

lemma get_proc_arrays_update: "get_proc (h\<lparr>arrays := xss\<rparr>) p = get_proc h p"
  by (cases p) auto

lemma values_of_old:
  "values_of h p = Some zs \<Longrightarrow> values_of (h\<lparr>arrays := arrays h @ [xs]\<rparr>) p = Some zs"
  by (auto simp: values_of_def get_proc_arrays_update get_array_old split: option.splits)

lemma values_store_123: "values_of store_123 (PRef 0) = Some [Num 1, Num 2, Num 3]"
  by (simp add: store_123_def values_of_def)

section \<open>What each method returns\<close>

lemma add_Some:
  assumes "values_of h this = Some xs"
  shows "\<exists>h'. add this v h = Some (this, h') \<and> values_of h' this = Some (map (\<lambda>e. e + v) xs)"
  using assms
  by (cases this) (auto simp: values_of_def add_def new_array_def nth_append split: option.splits if_splits)

lemma multiply_Some:
  assumes "values_of h this = Some xs"
  shows "\<exists>h'. multiply this v h = Some (this, h') \<and> values_of h' this = Some (map (\<lambda>e. e * v) xs)"
  using assms
  by (cases this) (auto simp: values_of_def multiply_def new_array_def nth_append split: option.splits if_splits)

lemma filterGreaterThan_Some:
  assumes "values_of h this = Some xs"
  shows "\<exists>h'. filterGreaterThan this t h = Some (this, h') \<and>
           values_of h' this = Some (filter (\<lambda>e. e > t) xs)"
  using assms
  by (cases this) (auto simp: values_of_def filterGreaterThan_def new_array_def nth_append split: option.splits if_splits)

lemma sort_Some:
  assumes "values_of h this = Some xs"
  shows "\<exists>h'. sort_DataProcessor this (Some asc) h = Some (this, h') \<and>
           values_of h' this = Some (Array_sort (\<lambda>a b. if asc then a - b else b - a) xs) \<and>
           get_proc h' this = get_proc h this"
  using assms
  by (cases this; cases "data (the (get_proc h this))")
     (auto simp: values_of_def sort_DataProcessor_def split: option.splits if_splits)

lemma getResult_Some:
  assumes "values_of h this = Some xs"
  shows "\<exists>i. getResult this h = Some (ARef i, h\<lparr>arrays := arrays h @ [xs]\<rparr>) \<and> i = length (arrays h)"
  using assms
  by (auto simp: values_of_def getResult_def new_array_def split: option.splits)

lemma values_store_20_60:
  "values_of store_20_60 (PRef 0) = Some [Num 20, Num 30, Num 40, Num 50, Num 60]"
  by (simp add: store_20_60_def values_of_def)

lemma array_store_array_only: "get_array store_array_only (ARef 0) = Some [Num 1, Num 2, Num 3]"
  by (simp add: store_array_only_def)

lemma values_store_unsorted:
  "values_of store_unsorted (PRef 0) = Some [Num 3, Num 1, Infinity, Num 2]"
  by (simp add: store_unsorted_def values_of_def)

lemma createProcessor_is_constructor: "createProcessor arg h = DataProcessor_constructor arg h"
  by (cases arg) (simp_all add: createProcessor_def DataProcessor_constructor_def new_array_def)

section \<open>The chains of the test file\<close>

text \<open>
  \<open>createProcessor([5, 10, 15, 20, 25]).add(5).multiply(2).filterGreaterThan(35).sort(false).getResult()\<close>
  returns an array holding \<open>[60, 50, 40]\<close>, as the test expects.
\<close>

lemma complex_chaining:
  "chain (chain (chain (chain (chain (chain
      (createProcessor (Some (ARef 0)) store_5_25)
      (\<lambda>p. add p (Num 5)))
      (\<lambda>p. multiply p (Num 2)))
      (\<lambda>p. filterGreaterThan p (Num 35)))
      (\<lambda>p. sort_DataProcessor p (Some False)))
      getResult)
      (\<lambda>r h. Some (get_array h r, h))
   = Some (Some [Num 60, Num 50, Num 40],
       \<lparr>arrays = [ [Num 5, Num 10, Num 15, Num 20, Num 25], [Num 5, Num 10, Num 15, Num 20, Num 25],
                  [Num 10, Num 15, Num 20, Num 25, Num 30], [Num 20, Num 30, Num 40, Num 50, Num 60],
                  [Num 60, Num 50, Num 40], [Num 60, Num 50, Num 40] ],
        procs = [\<lparr>data = ARef 4\<rparr>]\<rparr>)"
  by (simp add: number_eval chain_def store_5_25_def createProcessor_def DataProcessor_constructor_def
      add_def multiply_def filterGreaterThan_def sort_DataProcessor_def getResult_def
      new_array_def new_proc_def Array_sort_def SortCompare_def minus_number_def)

text \<open>
  \<open>processor.addAsync(5).then(p => p.multiplyAsync(2)).then(p => p.getResultAsync())\<close>
  on a container holding \<open>[1, 2, 3]\<close> resolves to an array holding \<open>[12, 14, 16]\<close>.
\<close>

lemma basic_async_chaining:
  "chain (chain (chain
      (await (addAsync (PRef 0) (Num 5) None) store_123)
      (\<lambda>p. await (multiplyAsync p (Num 2) None)))
      (\<lambda>p. await (getResultAsync p None)))
      (\<lambda>r h. Some (get_array h r, h))
   = Some (Some [Num 12, Num 14, Num 16],
       \<lparr>arrays = [ [Num 1, Num 2, Num 3], [Num 6, Num 7, Num 8], [Num 12, Num 14, Num 16],
                  [Num 12, Num 14, Num 16] ],
        procs = [\<lparr>data = ARef 2\<rparr>]\<rparr>)"
  by (simp add: number_eval chain_def store_123_def addAsync_def multiplyAsync_def getResultAsync_def
      new_array_def)

section \<open>The claims\<close>

text \<open>
  C1. Each suspending variant, run when its timer fires, returns the result and the
  store that its immediate counterpart returns from the same store with the same
  arguments, for every delay (given or omitted): \<open>addAsync\<close>, \<open>multiplyAsync\<close>,
  \<open>filterGreaterThanAsync\<close>, \<open>getResultAsync\<close> and \<open>createProcessorAsync\<close>
  against \<open>add\<close>, \<open>multiply\<close>, \<open>filterGreaterThan\<close>, \<open>getResult\<close> and
  \<open>createProcessor\<close>.
\<close>

theorem async_same_as_sync:
  "await (addAsync this v d) h = add this v h \<and>
   await (multiplyAsync this v d) h = multiply this v h \<and>
   await (filterGreaterThanAsync this t d) h = filterGreaterThan this t h \<and>
   await (getResultAsync this d) h = getResult this h \<and>
   await (fst (createProcessorAsync init d h)) (snd (createProcessorAsync init d h))
     = createProcessor init h"
  by (simp add: addAsync_def add_def multiplyAsync_def multiply_def
      filterGreaterThanAsync_def filterGreaterThan_def getResultAsync_def getResult_def
      createProcessorAsync_def createProcessor_def split_def Let_def)

theorem async_same_as_sync_witness:
  "await (addAsync (PRef 0) (Num 5) (Some (Num 7))) store_123
     = add (PRef 0) (Num 5) store_123 \<and>
   await (addAsync (PRef 0) (Num 5) None) store_123
     = Some (PRef 0,
         \<lparr>arrays = [ [Num 1, Num 2, Num 3], [Num 6, Num 7, Num 8] ], procs = [\<lparr>data = ARef 1\<rparr>]\<rparr>)"
  using async_same_as_sync[of "PRef 0" "Num 5" "Some (Num 7)" store_123]
    async_same_as_sync[of "PRef 0" "Num 5" None store_123]
  by (simp add: number_eval add_def new_array_def store_123_def)

text \<open>
  C2. On a container holding \<open>xs\<close>, \<open>add(v)\<close> returns the reference it was called
  on and leaves the container holding \<open>e + v\<close> for each element \<open>e\<close> of \<open>xs\<close>, in
  order; \<open>multiply(w)\<close> likewise with \<open>e * w\<close>.
\<close>

theorem add_multiply_elementwise:
  assumes "values_of h this = Some xs"
  shows "(\<exists>h'. add this v h = Some (this, h') \<and>
            values_of h' this = Some (map (\<lambda>e. e + v) xs)) \<and>
         (\<exists>h'. multiply this w h = Some (this, h') \<and>
            values_of h' this = Some (map (\<lambda>e. e * w) xs))"
  using add_Some[OF assms] multiply_Some[OF assms] by simp

theorem add_multiply_elementwise_witness:
  "values_of store_123 (PRef 0) = Some [Num 1, Num 2, Num 3] \<and>
   (\<exists>h'. add (PRef 0) (Num 5) store_123 = Some (PRef 0, h') \<and>
      values_of h' (PRef 0) = Some [Num 6, Num 7, Num 8]) \<and>
   (\<exists>h'. multiply (PRef 0) (Num 2) store_123 = Some (PRef 0, h') \<and>
      values_of h' (PRef 0) = Some [Num 2, Num 4, Num 6])"
  using add_multiply_elementwise[OF values_store_123, of "Num 5" "Num 2"] values_store_123
  by (simp add: number_eval)

text \<open>
  C3. On a container holding \<open>xs\<close>, \<open>filterGreaterThan(t)\<close> leaves it holding a
  sequence \<open>ys\<close> that is no longer than \<open>xs\<close>, has only elements greater than
  \<open>t\<close>, has every element of \<open>xs\<close> greater than \<open>t\<close> (as often as \<open>xs\<close> has it),
  and is a subsequence of \<open>xs\<close>: the order of the retained elements is kept.
\<close>

theorem filterGreaterThan_retains:
  assumes "values_of h this = Some xs"
  shows "\<exists>h' ys. filterGreaterThan this t h = Some (this, h') \<and>
           values_of h' this = Some ys \<and>
           length ys \<le> length xs \<and>
           (\<forall>y \<in> set ys. y > t) \<and>
           (\<forall>x \<in> set xs. x > t \<longrightarrow> x \<in> set ys) \<and>
           mset ys = filter_mset (\<lambda>x. x > t) (mset xs) \<and>
           subseq ys xs"
  using filterGreaterThan_Some[OF assms, of t] by auto

theorem filterGreaterThan_retains_witness:
  "values_of store_20_60 (PRef 0) = Some [Num 20, Num 30, Num 40, Num 50, Num 60] \<and>
   (\<exists>h'. filterGreaterThan (PRef 0) (Num 35) store_20_60 = Some (PRef 0, h') \<and>
      values_of h' (PRef 0) = Some [Num 40, Num 50, Num 60])"
  using filterGreaterThan_retains[OF values_store_20_60, of "Num 35"] values_store_20_60
  by (simp add: number_eval filterGreaterThan_def new_array_def store_20_60_def values_of_def)

text \<open>
  C4, as amended. On a container holding \<open>xs\<close>, \<open>sort\<close> keeps the multiset of the
  elements, whatever they are. When no element is \<open>NaN\<close>, \<open>sort(true)\<close> leaves the
  elements in ascending order (no earlier element has a positive \<open>a - b\<close> against a
  later one), \<open>sort(false)\<close> leaves them in descending order, and \<open>sort(false)\<close>
  after \<open>sort(true)\<close> leaves the ascending sequence reversed. An omitted argument is
  \<open>true\<close>.
\<close>

theorem sort_orders:
  assumes "values_of h this = Some xs"
  shows "(\<exists>h1 ys. sort_DataProcessor this (Some True) h = Some (this, h1) \<and>
            values_of h1 this = Some ys \<and> mset ys = mset xs \<and>
            (NaN \<notin> set xs \<longrightarrow>
               sorted_wrt (\<le>) ys \<and> sorted_wrt (\<lambda>a b. \<not> Num 0 < a - b) ys \<and>
               (\<exists>h2. sort_DataProcessor this (Some False) h1 = Some (this, h2) \<and>
                  values_of h2 this = Some (rev ys)))) \<and>
         (\<exists>h1 ys. sort_DataProcessor this (Some False) h = Some (this, h1) \<and>
            values_of h1 this = Some ys \<and> mset ys = mset xs \<and>
            (NaN \<notin> set xs \<longrightarrow>
               sorted_wrt (\<ge>) ys \<and> sorted_wrt (\<lambda>a b. \<not> Num 0 < b - a) ys)) \<and>
         sort_DataProcessor this None h = sort_DataProcessor this (Some True) h"
proof (intro conjI)
  let ?ys = "Array_sort (\<lambda>a b. a - b) xs"
  obtain h1 where 1: "sort_DataProcessor this (Some True) h = Some (this, h1)"
      "values_of h1 this = Some ?ys"
    using sort_Some[OF assms, of True] by auto
  have 2: "mset ?ys = mset xs" by (rule mset_Array_sort)
  have 3: "sorted_wrt (\<le>) ?ys \<and> sorted_wrt (\<lambda>a b. \<not> Num 0 < a - b) ?ys \<and>
        (\<exists>h2. sort_DataProcessor this (Some False) h1 = Some (this, h2) \<and>
           values_of h2 this = Some (rev ?ys))" if nan: "NaN \<notin> set xs"
  proof (intro conjI)
    show s: "sorted_wrt (\<le>) ?ys" using nan by (rule sorted_Array_sort_ascending)
    from s show "sorted_wrt (\<lambda>a b. \<not> Num 0 < a - b) ?ys"
      by (rule sorted_wrt_mono_rel[rotated]) (simp add: less_eq_not_minus_pos)
    show "\<exists>h2. sort_DataProcessor this (Some False) h1 = Some (this, h2) \<and>
           values_of h2 this = Some (rev ?ys)"
      using sort_Some[OF 1(2), of False] descending_after_ascending[OF nan] by auto
  qed
  show "\<exists>h1 ys. sort_DataProcessor this (Some True) h = Some (this, h1) \<and>
            values_of h1 this = Some ys \<and> mset ys = mset xs \<and>
            (NaN \<notin> set xs \<longrightarrow>
               sorted_wrt (\<le>) ys \<and> sorted_wrt (\<lambda>a b. \<not> Num 0 < a - b) ys \<and>
               (\<exists>h2. sort_DataProcessor this (Some False) h1 = Some (this, h2) \<and>
                  values_of h2 this = Some (rev ys)))"
    using 1 2 3 by blast
next
  let ?zs = "Array_sort (\<lambda>a b. b - a) xs"
  obtain h1 where 1: "sort_DataProcessor this (Some False) h = Some (this, h1)"
      "values_of h1 this = Some ?zs"
    using sort_Some[OF assms, of False] by auto
  have 2: "mset ?zs = mset xs" by (rule mset_Array_sort)
  have 3: "sorted_wrt (\<ge>) ?zs \<and> sorted_wrt (\<lambda>a b. \<not> Num 0 < b - a) ?zs"
    if nan: "NaN \<notin> set xs"
  proof (intro conjI)
    show s: "sorted_wrt (\<ge>) ?zs" using nan by (rule sorted_Array_sort_descending)
    from s show "sorted_wrt (\<lambda>a b. \<not> Num 0 < b - a) ?zs"
      by (rule sorted_wrt_mono_rel[rotated]) (simp add: less_eq_not_minus_pos)
  qed
  show "\<exists>h1 ys. sort_DataProcessor this (Some False) h = Some (this, h1) \<and>
            values_of h1 this = Some ys \<and> mset ys = mset xs \<and>
            (NaN \<notin> set xs \<longrightarrow>
               sorted_wrt (\<ge>) ys \<and> sorted_wrt (\<lambda>a b. \<not> Num 0 < b - a) ys)"
    using 1 2 3 by blast
next
  show "sort_DataProcessor this None h = sort_DataProcessor this (Some True) h"
    by (simp add: sort_DataProcessor_def)
qed

theorem sort_orders_witness:
  "values_of store_unsorted (PRef 0) = Some [Num 3, Num 1, Infinity, Num 2] \<and>
   NaN \<notin> set [Num 3, Num 1, Infinity, Num 2] \<and>
   (\<exists>h1. sort_DataProcessor (PRef 0) (Some True) store_unsorted = Some (PRef 0, h1) \<and>
      values_of h1 (PRef 0) = Some [Num 1, Num 2, Num 3, Infinity] \<and>
      (\<exists>h2. sort_DataProcessor (PRef 0) (Some False) h1 = Some (PRef 0, h2) \<and>
         values_of h2 (PRef 0) = Some [Infinity, Num 3, Num 2, Num 1])) \<and>
   (\<exists>h1. sort_DataProcessor (PRef 0) (Some False) store_unsorted = Some (PRef 0, h1) \<and>
      values_of h1 (PRef 0) = Some [Infinity, Num 3, Num 2, Num 1])"
  using sort_orders[OF values_store_unsorted] values_store_unsorted
  by (simp add: number_eval sort_DataProcessor_def Array_sort_def SortCompare_def minus_number_def
      store_unsorted_def values_of_def)

text \<open>
  With a \<open>NaN\<close> between them, 3 and 1 stay where they are under \<open>sort(true)\<close> and
  under \<open>sort(false)\<close>: the result is not ascending, and the second result is not
  the first one reversed.
\<close>

theorem sort_NaN_counterexample:
  "sort_DataProcessor (PRef 0) (Some True)
       \<lparr>arrays = [ [Num 3, NaN, Num 1] ], procs = [\<lparr>data = ARef 0\<rparr>]\<rparr>
     = Some (PRef 0, \<lparr>arrays = [ [Num 3, NaN, Num 1] ], procs = [\<lparr>data = ARef 0\<rparr>]\<rparr>) \<and>
   sort_DataProcessor (PRef 0) (Some False)
       \<lparr>arrays = [ [Num 3, NaN, Num 1] ], procs = [\<lparr>data = ARef 0\<rparr>]\<rparr>
     = Some (PRef 0, \<lparr>arrays = [ [Num 3, NaN, Num 1] ], procs = [\<lparr>data = ARef 0\<rparr>]\<rparr>) \<and>
   values_of \<lparr>arrays = [ [Num 3, NaN, Num 1] ], procs = [\<lparr>data = ARef 0\<rparr>]\<rparr> (PRef 0)
     = Some [Num 3, NaN, Num 1] \<and>
   \<not> sorted_wrt (\<le>) [Num 3, NaN, Num 1] \<and>
   Num 0 < Num 3 - Num 1 \<and>
   [Num 3, NaN, Num 1] \<noteq> rev [Num 3, NaN, Num 1]"
  by (simp add: number_eval sort_DataProcessor_def Array_sort_def SortCompare_def minus_number_def values_of_def)

text \<open>
  C5. On a container holding \<open>xs\<close>, \<open>getResult()\<close> returns a newly allocated array
  holding \<open>xs\<close>; it changes no array that existed and no container, so the
  container still holds \<open>xs\<close>; whatever is written into the returned array, the
  container still holds \<open>xs\<close>; and a second call returns another new array holding
  \<open>xs\<close>, the first one still holding \<open>xs\<close>.
\<close>

theorem getResult_copy:
  assumes "values_of h this = Some xs"
  shows "\<exists>r h'. getResult this h = Some (r, h') \<and>
           get_array h r = None \<and> get_array h' r = Some xs \<and>
           procs h' = procs h \<and>
           (\<forall>a zs. get_array h a = Some zs \<longrightarrow> get_array h' a = Some zs) \<and>
           values_of h' this = Some xs \<and>
           (\<forall>ys. values_of (set_array r ys h') this = Some xs) \<and>
           (\<exists>r2 h2. getResult this h' = Some (r2, h2) \<and> r2 \<noteq> r \<and>
              get_array h2 r2 = Some xs \<and> get_array h2 r = Some xs)"
proof -
  let ?r = "ARef (length (arrays h))"
  let ?h' = "h\<lparr>arrays := arrays h @ [xs]\<rparr>"
  let ?r2 = "ARef (length (arrays ?h'))"
  let ?h2 = "?h'\<lparr>arrays := arrays ?h' @ [xs]\<rparr>"
  have 1: "getResult this h = Some (?r, ?h')"
    using getResult_Some[OF assms] by simp
  have 2: "get_array h ?r = None" "get_array ?h' ?r = Some xs" "procs ?h' = procs h"
    by simp_all
  have 3: "\<forall>a zs. get_array h a = Some zs \<longrightarrow> get_array ?h' a = Some zs"
    by (simp add: get_array_old)
  have 4: "values_of ?h' this = Some xs"
    using assms by (rule values_of_old)
  have 5: "\<forall>ys. values_of (set_array ?r ys ?h') this = Some xs"
  proof
    fix ys
    obtain obj where obj: "get_proc h this = Some obj" "get_array h (data obj) = Some xs"
      using assms by (auto simp: values_of_def split: option.splits)
    then have "data obj \<noteq> ?r" by auto
    then have "get_array (set_array ?r ys ?h') (data obj) = get_array ?h' (data obj)"
      by (rule get_array_set_other)
    also have "\<dots> = Some xs" using obj(2) by (rule get_array_old)
    finally show "values_of (set_array ?r ys ?h') this = Some xs"
      using obj(1) by (simp add: values_of_def get_proc_set_array get_proc_arrays_update)
  qed
  have 6: "getResult this ?h' = Some (?r2, ?h2)"
    using getResult_Some[OF 4] by simp
  have 7: "?r2 \<noteq> ?r" "get_array ?h2 ?r2 = Some xs" "get_array ?h2 ?r = Some xs"
    by (simp_all add: nth_append)
  show ?thesis
    using 1 2 3 4 5 6 7 by blast
qed

theorem getResult_copy_witness:
  "values_of store_123 (PRef 0) = Some [Num 1, Num 2, Num 3] \<and>
   getResult (PRef 0) store_123
     = Some (ARef 1,
         \<lparr>arrays = [ [Num 1, Num 2, Num 3], [Num 1, Num 2, Num 3] ], procs = [\<lparr>data = ARef 0\<rparr>]\<rparr>) \<and>
   values_of
     (set_array (ARef 1) [Num 9]
        \<lparr>arrays = [ [Num 1, Num 2, Num 3], [Num 1, Num 2, Num 3] ], procs = [\<lparr>data = ARef 0\<rparr>]\<rparr>)
     (PRef 0) = Some [Num 1, Num 2, Num 3]"
  using getResult_copy[OF values_store_123] values_store_123
  by (simp add: number_eval getResult_def new_array_def store_123_def values_of_def)

text \<open>
  C6. \<open>createProcessor(initial)\<close>, given an array holding \<open>xs\<close>, returns a new
  container holding \<open>xs\<close>; the given array and the containers that existed are as
  they were; and whatever is written into the given array afterwards, the new
  container still holds \<open>xs\<close>. Without an argument the new container is empty.
\<close>

theorem createProcessor_copy:
  "(get_array h a = Some xs \<longrightarrow>
     (\<exists>p h'. createProcessor (Some a) h = Some (p, h') \<and>
        get_proc h p = None \<and> values_of h' p = Some xs \<and>
        get_array h' a = Some xs \<and>
        (\<forall>q zs. values_of h q = Some zs \<longrightarrow> values_of h' q = Some zs) \<and>
        (\<forall>ys. values_of (set_array a ys h') p = Some xs))) \<and>
   (\<exists>p h'. createProcessor None h = Some (p, h') \<and>
        get_proc h p = None \<and> values_of h' p = Some [])"
proof (intro conjI impI)
  assume a: "get_array h a = Some xs"
  let ?d = "ARef (length (arrays h))"
  let ?p = "PRef (length (procs h))"
  let ?h' = "h\<lparr>arrays := arrays h @ [xs], procs := procs h @ [\<lparr>data = ?d\<rparr>]\<rparr>"
  have 1: "createProcessor (Some a) h = Some (?p, ?h')"
    using a by (simp add: createProcessor_def DataProcessor_constructor_def new_array_def new_proc_def)
  have 2: "get_proc h ?p = None" "values_of ?h' ?p = Some xs"
    by (simp_all add: values_of_def)
  have 3: "get_array ?h' a = Some xs"
    using a by (cases a) (auto simp: nth_append split: if_splits)
  have 4: "\<forall>q zs. values_of h q = Some zs \<longrightarrow> values_of ?h' q = Some zs"
  proof (intro allI impI)
    fix q zs assume "values_of h q = Some zs"
    then show "values_of ?h' q = Some zs"
      by (cases q; cases "data (the (get_proc h q))")
         (auto simp: values_of_def nth_append split: option.splits if_splits)
  qed
  have 5: "\<forall>ys. values_of (set_array a ys ?h') ?p = Some xs"
    using a by (cases a) (auto simp: values_of_def nth_append split: if_splits)
  show "\<exists>p h'. createProcessor (Some a) h = Some (p, h') \<and>
        get_proc h p = None \<and> values_of h' p = Some xs \<and>
        get_array h' a = Some xs \<and>
        (\<forall>q zs. values_of h q = Some zs \<longrightarrow> values_of h' q = Some zs) \<and>
        (\<forall>ys. values_of (set_array a ys h') p = Some xs)"
    using 1 2 3 4 5 by blast
next
  show "\<exists>p h'. createProcessor None h = Some (p, h') \<and>
        get_proc h p = None \<and> values_of h' p = Some []"
    by (simp add: createProcessor_def DataProcessor_constructor_def new_array_def new_proc_def
        values_of_def nth_append)
qed

theorem createProcessor_copy_witness:
  "get_array store_array_only (ARef 0) = Some [Num 1, Num 2, Num 3] \<and>
   createProcessor (Some (ARef 0)) store_array_only
     = Some (PRef 0,
         \<lparr>arrays = [ [Num 1, Num 2, Num 3], [Num 1, Num 2, Num 3] ], procs = [\<lparr>data = ARef 1\<rparr>]\<rparr>) \<and>
   values_of
     (set_array (ARef 0) [Num 9]
        \<lparr>arrays = [ [Num 1, Num 2, Num 3], [Num 1, Num 2, Num 3] ], procs = [\<lparr>data = ARef 1\<rparr>]\<rparr>)
     (PRef 0) = Some [Num 1, Num 2, Num 3]"
  using createProcessor_copy[of store_array_only "ARef 0" "[Num 1, Num 2, Num 3]"]
    array_store_array_only
  by (simp add: number_eval createProcessor_def DataProcessor_constructor_def new_array_def new_proc_def
      store_array_only_def values_of_def)

text \<open>
  C7, as amended. On a container holding \<open>xs\<close>, \<open>multiply(1)\<close> leaves it holding
  \<open>xs\<close>. \<open>multiply(0)\<close> leaves a sequence of the same length in which each finite
  element has become zero and each \<open>NaN\<close>, \<open>Infinity\<close> and \<open>-Infinity\<close> has become
  \<open>NaN\<close>: a sequence of zeros when every element of \<open>xs\<close> is finite.
\<close>

theorem multiply_one_zero:
  assumes "values_of h this = Some xs"
  shows "(\<exists>h'. multiply this (Num 1) h = Some (this, h') \<and> values_of h' this = Some xs) \<and>
         (\<exists>h'. multiply this (Num 0) h = Some (this, h') \<and>
            values_of h' this = Some (map (\<lambda>e. if isFinite e then Num 0 else NaN) xs) \<and>
            ((\<forall>x \<in> set xs. isFinite x) \<longrightarrow>
               values_of h' this = Some (replicate (length xs) (Num 0))))"
proof -
  have "map (\<lambda>e. e * Num 1) xs = xs"
    by (induction xs) (simp_all add: times_one)
  then have one: "\<exists>h'. multiply this (Num 1) h = Some (this, h') \<and> values_of h' this = Some xs"
    using multiply_Some[OF assms, of "Num 1"] by simp
  have "e * Num 0 = (if isFinite e then Num 0 else NaN)" for e
    by (rule times_zero)
  then have "map (\<lambda>e. e * Num 0) xs = map (\<lambda>e. if isFinite e then Num 0 else NaN) xs"
    by simp
  then obtain h' where zero: "multiply this (Num 0) h = Some (this, h')"
      "values_of h' this = Some (map (\<lambda>e. if isFinite e then Num 0 else NaN) xs)"
      "values_of h' this = Some (map (\<lambda>e. e * Num 0) xs)"
    using multiply_Some[OF assms, of "Num 0"] by auto
  have "(\<forall>x \<in> set xs. isFinite x) \<longrightarrow> values_of h' this = Some (replicate (length xs) (Num 0))"
    using zero(3) by (simp add: map_times_zero)
  with one zero(1,2) show ?thesis by blast
qed

theorem multiply_one_zero_witness:
  "values_of store_123 (PRef 0) = Some [Num 1, Num 2, Num 3] \<and>
   isFinite (Num 1) \<and> isFinite (Num 2) \<and> isFinite (Num 3) \<and>
   (\<exists>h'. multiply (PRef 0) (Num 1) store_123 = Some (PRef 0, h') \<and>
      values_of h' (PRef 0) = Some [Num 1, Num 2, Num 3]) \<and>
   (\<exists>h'. multiply (PRef 0) (Num 0) store_123 = Some (PRef 0, h') \<and>
      values_of h' (PRef 0) = Some [Num 0, Num 0, Num 0])"
  using multiply_one_zero[OF values_store_123] values_store_123
  by (simp add: number_eval multiply_def new_array_def store_123_def values_of_def)

text \<open>On a container holding \<open>[Infinity]\<close>, \<open>multiply(0)\<close> leaves \<open>[NaN]\<close>, not a zero.\<close>

theorem multiply_zero_counterexample:
  "multiply (PRef 0) (Num 0) \<lparr>arrays = [ [Infinity] ], procs = [\<lparr>data = ARef 0\<rparr>]\<rparr>
     = Some (PRef 0, \<lparr>arrays = [ [Infinity], [NaN] ], procs = [\<lparr>data = ARef 1\<rparr>]\<rparr>) \<and>
   values_of \<lparr>arrays = [ [Infinity], [NaN] ], procs = [\<lparr>data = ARef 1\<rparr>]\<rparr> (PRef 0) = Some [NaN] \<and>
   [NaN] \<noteq> replicate (length [Infinity]) (Num 0)"
  by (simp add: number_eval multiply_def new_array_def values_of_def)

text \<open>
  C8, as amended. On a container holding \<open>xs\<close>, and for a finite \<open>k\<close>, \<open>add(k)\<close>
  followed by \<open>add(-k)\<close> leaves a sequence \<open>ys\<close> of the same length in which
  every element whose sum with \<open>k\<close> is computed without rounding is the original
  one (so is every \<open>NaN\<close> and infinity), and every finite element that comes back
  finite differs from the original \<open>e\<close> by at most \<open>2 ^ - 51 * (\<bar>e\<bar> + \<bar>k\<bar>)\<close>,
  integer or not. When every sum is exact the sequence, hence the multiset, is the
  original one.
\<close>

theorem add_then_add_negated:
  assumes "values_of h this = Some xs" and "isFinite k"
  shows "\<exists>h1 h2 ys. add this k h = Some (this, h1) \<and> add this (- k) h1 = Some (this, h2) \<and>
           values_of h2 this = Some ys \<and> length ys = length xs \<and>
           (\<forall>i < length xs.
              (exact_plus (xs ! i) k \<longrightarrow> ys ! i = xs ! i) \<and>
              (isFinite (xs ! i) \<and> isFinite (ys ! i) \<longrightarrow>
                 \<bar>the_real (ys ! i) - the_real (xs ! i)\<bar>
                   \<le> 2 powi (- 51) * (\<bar>the_real (xs ! i)\<bar> + \<bar>the_real k\<bar>))) \<and>
           ((\<forall>e \<in> set xs. exact_plus e k) \<longrightarrow> ys = xs \<and> mset ys = mset xs)"
proof -
  define ys where "ys = map (\<lambda>e. (e + k) + (- k)) xs"
  obtain h1 where 1: "add this k h = Some (this, h1)"
      "values_of h1 this = Some (map (\<lambda>e. e + k) xs)"
    using add_Some[OF assms(1)] by blast
  obtain h2 where 2: "add this (- k) h1 = Some (this, h2)"
      "values_of h2 this = Some (map (\<lambda>e. e + (- k)) (map (\<lambda>e. e + k) xs))"
    using add_Some[OF 1(2)] by blast
  have v: "values_of h2 this = Some ys" using 2(2) by (simp add: ys_def comp_def)
  have len: "length ys = length xs" by (simp add: ys_def)
  have el: "\<forall>i < length xs.
              (exact_plus (xs ! i) k \<longrightarrow> ys ! i = xs ! i) \<and>
              (isFinite (xs ! i) \<and> isFinite (ys ! i) \<longrightarrow>
                 \<bar>the_real (ys ! i) - the_real (xs ! i)\<bar>
                   \<le> 2 powi (- 51) * (\<bar>the_real (xs ! i)\<bar> + \<bar>the_real k\<bar>))"
    using restore_nth[OF assms(2)] by (simp add: ys_def)
  have all: "(\<forall>e \<in> set xs. exact_plus e k) \<longrightarrow> ys = xs \<and> mset ys = mset xs"
  proof
    assume a: "\<forall>e \<in> set xs. exact_plus e k"
    have "ys = xs" unfolding ys_def using a restore_exact[OF _ assms(2)]
      by (induction xs) simp_all
    then show "ys = xs \<and> mset ys = mset xs" by simp
  qed
  from 1(1) 2(1) v len el all show ?thesis by blast
qed

theorem add_then_add_negated_witness:
  "values_of store_123 (PRef 0) = Some [Num 1, Num 2, Num 3] \<and> isFinite (Num 5) \<and>
   exact_plus (Num 1) (Num 5) \<and> exact_plus (Num 2) (Num 5) \<and> exact_plus (Num 3) (Num 5) \<and>
   (\<exists>h1 h2. add (PRef 0) (Num 5) store_123 = Some (PRef 0, h1) \<and>
      add (PRef 0) (- Num 5) h1 = Some (PRef 0, h2) \<and>
      values_of h2 (PRef 0) = Some [Num 1, Num 2, Num 3])"
proof -
  have e: "exact_plus (Num 1) (Num 5)" "exact_plus (Num 2) (Num 5)" "exact_plus (Num 3) (Num 5)"
    "isFinite (Num 5)"
    by (simp_all add: number_eval)
  then have "\<forall>e \<in> set [Num 1, Num 2, Num 3]. exact_plus e (Num 5)" by simp
  with add_then_add_negated[OF values_store_123 e(4)] e values_store_123
  show ?thesis by blast
qed

text \<open>
  On a container holding \<open>[1]\<close>, \<open>add(Infinity)\<close> leaves \<open>[Infinity]\<close> and
  \<open>add(-Infinity)\<close> then leaves \<open>[NaN]\<close>. With the integer \<open>2 ^ 53\<close> for \<open>k\<close>
  the sum \<open>1 + 2 ^ 53\<close> rounds to \<open>2 ^ 53\<close>, and \<open>add(-k)\<close> leaves \<open>[0]\<close>.
\<close>

theorem add_then_add_negated_counterexample:
  "add (PRef 0) Infinity \<lparr>arrays = [ [Num 1] ], procs = [\<lparr>data = ARef 0\<rparr>]\<rparr>
     = Some (PRef 0, \<lparr>arrays = [ [Num 1], [Infinity] ], procs = [\<lparr>data = ARef 1\<rparr>]\<rparr>) \<and>
   add (PRef 0) (- Infinity) \<lparr>arrays = [ [Num 1], [Infinity] ], procs = [\<lparr>data = ARef 1\<rparr>]\<rparr>
     = Some (PRef 0, \<lparr>arrays = [ [Num 1], [Infinity], [NaN] ], procs = [\<lparr>data = ARef 2\<rparr>]\<rparr>) \<and>
   mset [NaN] \<noteq> mset [Num 1] \<and>
   add (PRef 0) (Num (2 ^ 53)) \<lparr>arrays = [ [Num 1] ], procs = [\<lparr>data = ARef 0\<rparr>]\<rparr>
     = Some (PRef 0, \<lparr>arrays = [ [Num 1], [Num (2 ^ 53)] ], procs = [\<lparr>data = ARef 1\<rparr>]\<rparr>) \<and>
   add (PRef 0) (- Num (2 ^ 53)) \<lparr>arrays = [ [Num 1], [Num (2 ^ 53)] ], procs = [\<lparr>data = ARef 1\<rparr>]\<rparr>
     = Some (PRef 0, \<lparr>arrays = [ [Num 1], [Num (2 ^ 53)], [Num 0] ], procs = [\<lparr>data = ARef 2\<rparr>]\<rparr>) \<and>
   mset [Num 0] \<noteq> mset [Num 1]"
  by (simp add: add_def new_array_def number_eval Num_plus Num_uminus Num_2_53_1)

text \<open>
  C9. On a container holding \<open>xs\<close>, \<open>add\<close> and \<open>multiply\<close> leave a sequence of
  the same length, \<open>filterGreaterThan\<close> leaves one that is not longer, and \<open>sort\<close>
  leaves one of the same length.
\<close>

theorem length_preserved:
  assumes "values_of h this = Some xs"
  shows "(\<exists>h' ys. add this v h = Some (this, h') \<and> values_of h' this = Some ys \<and>
            length ys = length xs) \<and>
         (\<exists>h' ys. multiply this v h = Some (this, h') \<and> values_of h' this = Some ys \<and>
            length ys = length xs) \<and>
         (\<exists>h' ys. filterGreaterThan this v h = Some (this, h') \<and> values_of h' this = Some ys \<and>
            length ys \<le> length xs) \<and>
         (\<exists>h' ys. sort_DataProcessor this (Some asc) h = Some (this, h') \<and>
            values_of h' this = Some ys \<and> length ys = length xs)"
  using add_Some[OF assms, of v] multiply_Some[OF assms, of v]
    filterGreaterThan_Some[OF assms, of v] sort_Some[OF assms, of asc]
  by (auto simp: length_Array_sort)

theorem length_preserved_witness:
  "values_of store_20_60 (PRef 0) = Some [Num 20, Num 30, Num 40, Num 50, Num 60] \<and>
   (\<exists>h' ys. add (PRef 0) (Num 35) store_20_60 = Some (PRef 0, h') \<and>
      values_of h' (PRef 0) = Some ys \<and> length ys = 5) \<and>
   (\<exists>h' ys. multiply (PRef 0) (Num 35) store_20_60 = Some (PRef 0, h') \<and>
      values_of h' (PRef 0) = Some ys \<and> length ys = 5) \<and>
   (\<exists>h' ys. filterGreaterThan (PRef 0) (Num 35) store_20_60 = Some (PRef 0, h') \<and>
      values_of h' (PRef 0) = Some ys \<and> length ys \<le> 5) \<and>
   (\<exists>h' ys. sort_DataProcessor (PRef 0) (Some False) store_20_60 = Some (PRef 0, h') \<and>
      values_of h' (PRef 0) = Some ys \<and> length ys = 5)"
  using length_preserved[OF values_store_20_60, of "Num 35" False] values_store_20_60
  by (simp add: number_eval eval_nat_numeral)

text \<open>
  C10. On a container holding \<open>xs\<close>, a second \<open>filterGreaterThan(t)\<close> right after
  the first leaves the container holding the sequence the first one left.
\<close>

theorem filterGreaterThan_idempotent:
  assumes "values_of h this = Some xs"
  shows "\<exists>h1 h2 ys. filterGreaterThan this t h = Some (this, h1) \<and>
           values_of h1 this = Some ys \<and>
           filterGreaterThan this t h1 = Some (this, h2) \<and>
           values_of h2 this = Some ys"
proof -
  obtain h1 where 1: "filterGreaterThan this t h = Some (this, h1)"
      "values_of h1 this = Some (filter (\<lambda>e. e > t) xs)"
    using filterGreaterThan_Some[OF assms] by blast
  obtain h2 where 2: "filterGreaterThan this t h1 = Some (this, h2)"
      "values_of h2 this = Some (filter (\<lambda>e. e > t) (filter (\<lambda>e. e > t) xs))"
    using filterGreaterThan_Some[OF 1(2)] by blast
  from 2(2) have "values_of h2 this = Some (filter (\<lambda>e. e > t) xs)" by simp
  with 1 2(1) show ?thesis by blast
qed

theorem filterGreaterThan_idempotent_witness:
  "values_of store_20_60 (PRef 0) = Some [Num 20, Num 30, Num 40, Num 50, Num 60] \<and>
   (\<exists>h1 h2 ys. filterGreaterThan (PRef 0) (Num 35) store_20_60 = Some (PRef 0, h1) \<and>
      values_of h1 (PRef 0) = Some ys \<and>
      filterGreaterThan (PRef 0) (Num 35) h1 = Some (PRef 0, h2) \<and>
      values_of h2 (PRef 0) = Some ys)"
  using filterGreaterThan_idempotent[OF values_store_20_60, of "Num 35"] values_store_20_60
  by (simp add: number_eval)

end
